theory Spec2Isabelle
  imports Main "HOL-Library.Sublist"
begin

section \<open>Python string operations used by the clients\<close>

text \<open>
  Python strings are modelled as \<^typ>\<open>string\<close>; a character is one code point below 256.
  \<^verbatim>\<open>s.rstrip(chars)\<close>, \<^verbatim>\<open>s.lstrip(chars)\<close> and \<^verbatim>\<open>s.strip(chars)\<close> remove every leading or
  trailing character that occurs in \<^verbatim>\<open>chars\<close>.
\<close>

definition rstrip_chars :: "string \<Rightarrow> string \<Rightarrow> string" where
  "rstrip_chars cs s = rev (dropWhile (\<lambda>c. c \<in> set cs) (rev s))"

definition lstrip_chars :: "string \<Rightarrow> string \<Rightarrow> string" where
  "lstrip_chars cs s = dropWhile (\<lambda>c. c \<in> set cs) s"

definition strip_chars :: "string \<Rightarrow> string \<Rightarrow> string" where
  "strip_chars cs s = lstrip_chars cs (rstrip_chars cs s)"

text \<open>
  Without an argument the three methods remove whitespace: the characters for which
  \<^verbatim>\<open>str.isspace\<close> holds, which below code point 256 are TAB, LF, VT, FF, CR, the four
  separators 0x1C to 0x1F, the space, NEL (0x85) and the no-break space (0xA0).
\<close>

definition whitespace :: string where
  "whitespace = [CHR 0x09, CHR 0x0A, CHR 0x0B, CHR 0x0C, CHR 0x0D, CHR 0x1C, CHR 0x1D,
     CHR 0x1E, CHR 0x1F, CHR 0x20, CHR 0x85, CHR 0xA0]"

definition py_rstrip :: "string \<Rightarrow> string" where
  "py_rstrip s = rstrip_chars whitespace s"

definition py_lstrip :: "string \<Rightarrow> string" where
  "py_lstrip s = lstrip_chars whitespace s"

definition py_strip :: "string \<Rightarrow> string" where
  "py_strip s = strip_chars whitespace s"

text \<open>\<^verbatim>\<open>s.startswith(p)\<close> and \<^verbatim>\<open>s.endswith(p)\<close>.\<close>

definition startswith :: "string \<Rightarrow> string \<Rightarrow> bool" where
  "startswith s p = (take (length p) s = p)"

definition endswith :: "string \<Rightarrow> string \<Rightarrow> bool" where
  "endswith s p = (length p \<le> length s \<and> drop (length s - length p) s = p)"

text \<open>
  \<^verbatim>\<open>s.find(c)\<close> for a single character: the index of its first occurrence; Python's
  \<^verbatim>\<open>-1\<close> is \<^const>\<open>None\<close>.
\<close>

fun find_char :: "char \<Rightarrow> string \<Rightarrow> nat option" where
  "find_char c [] = None"
| "find_char c (x # xs) = (if x = c then Some 0 else map_option Suc (find_char c xs))"

text \<open>
  \<^verbatim>\<open>s[3:-3]\<close>: the slice from index 3 up to three characters before the end, empty when
  the string has fewer than seven characters.
\<close>

definition slice_3_minus3 :: "string \<Rightarrow> string" where
  "slice_3_minus3 s = drop 3 (take (length s - 3) s)"

text \<open>
  \<^verbatim>\<open>s.lower()\<close>: the letters A to Z, and the upper-case letters of the range 0xC0 to 0xDE
  (the multiplication sign 0xD7 apart), move up by 32.
\<close>

definition lower_char :: "char \<Rightarrow> char" where
  "lower_char c =
     (let n = (of_char c :: nat)
      in if (65 \<le> n \<and> n \<le> 90) \<or> (192 \<le> n \<and> n \<le> 222 \<and> n \<noteq> 215)
         then char_of (n + 32) else c)"

definition lower :: "string \<Rightarrow> string" where
  "lower s = map lower_char s"


section \<open>Base-URL normalization\<close>

text \<open>
  rag-chatbot, \<^verbatim>\<open>APIClient._normalize_base\<close>:
  \<^verbatim>\<open>
    if url.endswith("/v1"):
        return url
    return f"{url}/v1"
  \<close>
\<close>

definition normalize_base :: "string \<Rightarrow> string" where
  "normalize_base url = (if endswith url ''/v1'' then url else url @ ''/v1'')"

text \<open>
  rag-chatbot calls it on \<^verbatim>\<open>self.base_url\<close>, which \<^verbatim>\<open>__init__\<close> sets to
  \<^verbatim>\<open>config.BASE_URL.rstrip("/")\<close>; \<^verbatim>\<open>get_inference_client\<close> passes
  \<^verbatim>\<open>self._normalize_base(self.base_url)\<close> as the client's base URL.
\<close>

definition rag_client_base_url :: "string \<Rightarrow> string" where
  "rag_client_base_url BASE_URL = normalize_base (rstrip_chars ''/'' BASE_URL)"

text \<open>
  pdf-podcast, \<^verbatim>\<open>TTSClient.__init__\<close>:
  \<^verbatim>\<open>
    base = self.base_url.rstrip("/")
    if base.endswith("/v1"):
        final_base = base
    else:
        final_base = f"{base}/v1"
  \<close>
\<close>

definition tts_final_base :: "string \<Rightarrow> string" where
  "tts_final_base base_url =
     (let base = rstrip_chars ''/'' base_url
      in if endswith base ''/v1'' then base else base @ ''/v1'')"


section \<open>Fence stripping\<close>

text \<open>
  code-translation, \<^verbatim>\<open>APIClient._strip_code_fences\<close>:
  \<^verbatim>\<open>
    stripped = text.strip()
    if stripped.startswith("```") and stripped.endswith("```"):
        stripped = stripped[3:-3].strip()
    first_newline = stripped.find("\n")
    if first_newline != -1:
        first_line = stripped[:first_newline].strip().lower()
        if first_line in {"python", "java", "c", "cpp", "rust", "go", "ts", "js",
                          "javascript", "csharp"}:
            stripped = stripped[first_newline + 1 :].lstrip()
    return stripped
  \<close>
\<close>

definition language_tags :: "string list" where
  "language_tags = [''python'', ''java'', ''c'', ''cpp'', ''rust'', ''go'', ''ts'', ''js'',
     ''javascript'', ''csharp'']"

definition strip_fence_pair :: "string \<Rightarrow> string" where
  "strip_fence_pair stripped =
     (if startswith stripped ''```'' \<and> endswith stripped ''```''
      then py_strip (slice_3_minus3 stripped) else stripped)"

definition strip_language_tag :: "string \<Rightarrow> string" where
  "strip_language_tag stripped =
     (case find_char CHR 0x0A stripped of
        None \<Rightarrow> stripped
      | Some first_newline \<Rightarrow>
          (let first_line = lower (py_strip (take first_newline stripped))
           in if first_line \<in> set language_tags
              then py_lstrip (drop (first_newline + 1) stripped)
              else stripped))"

definition strip_code_fences :: "string \<Rightarrow> string" where
  "strip_code_fences text = strip_language_tag (strip_fence_pair (py_strip text))"

text \<open>
  The vocabulary of the statements about fence stripping. A text has no outer whitespace
  when it is empty or neither its first nor its last character is whitespace. It starts
  and ends with a fence when the three backticks are a prefix and a suffix of it (a text
  of three to five backticks does both, the two fences overlapping). Its first line is
  the text before its first newline; it has a tag line when it contains a newline and
  its first line, with surrounding whitespace removed and in lower case, is one of the
  ten tags (a one-line text has no tag line, whatever it says). A text is clean when it
  has no outer whitespace, does not start and end with a fence, and has no tag line.
\<close>

definition no_outer_whitespace :: "string \<Rightarrow> bool" where
  "no_outer_whitespace s = (s = [] \<or> (hd s \<notin> set whitespace \<and> last s \<notin> set whitespace))"

definition fence :: string where
  "fence = ''```''"

definition starts_and_ends_with_fence :: "string \<Rightarrow> bool" where
  "starts_and_ends_with_fence s = (prefix fence s \<and> suffix fence s)"

definition first_line :: "string \<Rightarrow> string" where
  "first_line s = takeWhile (\<lambda>c. c \<noteq> CHR 0x0A) s"

definition has_tag_line :: "string \<Rightarrow> bool" where
  "has_tag_line s = (CHR 0x0A \<in> set s \<and> lower (py_strip (first_line s)) \<in> set language_tags)"

definition clean :: "string \<Rightarrow> bool" where
  "clean s = (no_outer_whitespace s \<and> \<not> starts_and_ends_with_fence s \<and> \<not> has_tag_line s)"

text \<open>
  A text is all whitespace when each of its characters is; a tag line is a line that
  ends with its newline, holds no other newline, and says one of the ten tags.
\<close>

definition all_whitespace :: "string \<Rightarrow> bool" where
  "all_whitespace w = (set w \<subseteq> set whitespace)"

definition is_tag_line :: "string \<Rightarrow> bool" where
  "is_tag_line t = (t \<noteq> [] \<and> last t = CHR 0x0A \<and> CHR 0x0A \<notin> set (butlast t)
     \<and> lower (py_strip (butlast t)) \<in> set language_tags)"



section \<open>Configuration, token endpoint and trace\<close>

text \<open>
  The configuration values the clients read. Each is \<^verbatim>\<open>Optional[str]\<close>: unset, or a string
  that may be empty. Python's truth test \<^verbatim>\<open>if v:\<close> on such a value is \<^const>\<open>False\<close> for
  \<^verbatim>\<open>None\<close> and for the empty string.
\<close>

record config =
  BASE_URL :: "string option"
  EMBEDDINGS_BASE_URL :: "string option"
  KEYCLOAK_CLIENT_ID :: "string option"
  KEYCLOAK_CLIENT_SECRET :: "string option"
  INFERENCE_API_KEY :: "string option"
  INFERENCE_MODEL_ENDPOINT :: string

definition truthy :: "string option \<Rightarrow> bool" where
  "truthy v = (case v of None \<Rightarrow> False | Some s \<Rightarrow> s \<noteq> [])"

text \<open>The string held by a value that passed the truth test.\<close>

definition str_val :: "string option \<Rightarrow> string" where
  "str_val v = (case v of None \<Rightarrow> [] | Some s \<Rightarrow> s)"

datatype exn =
    ValueError string
  | RuntimeError string
  | AttributeError
  | IndexError
  | TypeError
  | RequestException string
  | JSONDecodeError
  | APIError string
  | APITimeoutError
  | APIConnectionError
  | APIStatusError int
  | RetryError exn

text \<open>
  What \<^verbatim>\<open>requests.post(token_url, data=payload, ...)\<close> does: it raises, or it returns a
  response with a status code and a body. \<^verbatim>\<open>response.json()\<close> raises on a body that is
  not JSON; otherwise \<^verbatim>\<open>.get("access_token")\<close> is the token string, or \<^verbatim>\<open>None\<close> when the
  key is missing.
\<close>

datatype body = NotJson | Json "string option"

datatype http_result = Raised exn | Response int body

type_synonym payload = "(string \<times> string option) list"

type_synonym token_endpoint = "string \<Rightarrow> payload \<Rightarrow> http_result"

text \<open>
  The trace of a resolution, in program order: every call of \<^verbatim>\<open>requests.post\<close>, every
  logger call (level and format string), and every evaluation of the static key by the
  second tier's test.
\<close>

datatype level = INFO | WARNING | ERROR

datatype event = Post string payload | Log level string | TestStaticKey

fun is_post :: "event \<Rightarrow> bool" where
  "is_post (Post url p) = True"
| "is_post e = False"

text \<open>
  The attributes every client keeps, and what each class adds: the Keycloak token
  (code-translation, doc-summarization), the embeddings URL (rag-chatbot), the OpenAI-style
  client built by the constructor (pdf-podcast).
\<close>

record auth_state =
  base_url :: "string option"
  api_key :: "string option"
  auth_mode :: string

record api_client = auth_state +
  token :: "string option"

record rag_client = auth_state +
  embeddings_base_url :: string

text \<open>The OpenAI-style client a factory method builds: \<^verbatim>\<open>OpenAI(api_key=..., base_url=...)\<close>.\<close>

record openai =
  client_api_key :: string
  client_base_url :: string

record llm_client = auth_state +
  client :: "openai option"

definition keycloak_payload :: "config \<Rightarrow> payload" where
  "keycloak_payload cfg =
     [(''grant_type'', Some ''client_credentials''),
      (''client_id'', KEYCLOAK_CLIENT_ID cfg),
      (''client_secret'', KEYCLOAK_CLIENT_SECRET cfg)]"


section \<open>code-translation: \<^verbatim>\<open>APIClient\<close>\<close>

text \<open>
  The two lower tiers of \<^verbatim>\<open>_init_auth\<close>, the code after the Keycloak block:
  \<^verbatim>\<open>
    if self.api_key:
        self.auth_mode = "api_key"
        logger.info("Using INFERENCE_API_KEY for authentication")
        return
    self.auth_mode = "open"
    logger.info("No authentication configured, running in open mode")
  \<close>
\<close>

definition static_key_or_open :: "event list \<Rightarrow> api_client \<Rightarrow> event list \<times> api_client" where
  "static_key_or_open tr self =
     (if truthy (api_key self)
      then (tr @ [TestStaticKey, Log INFO ''Using INFERENCE_API_KEY for authentication''],
            self\<lparr>auth_mode := ''api_key''\<rparr>)
      else (tr @ [TestStaticKey, Log INFO ''No authentication configured, running in open mode''],
            self\<lparr>auth_mode := ''open''\<rparr>))"

text \<open>
  \<^verbatim>\<open>_init_auth\<close>. The Keycloak block runs when the base URL, the client id and the client
  secret all pass the truth test; it posts once to \<^verbatim>\<open>f"{self.base_url.rstrip('/')}/token"\<close>.
  On status 200 the token is stored, and the mode becomes \<^verbatim>\<open>keycloak\<close> only when the token
  passes the truth test. Every exception inside the \<^verbatim>\<open>try\<close> is logged and falls through.
\<close>

definition ct_init_auth :: "config \<Rightarrow> token_endpoint \<Rightarrow> api_client \<Rightarrow> event list \<times> api_client" where
  "ct_init_auth cfg post self =
     (if truthy (base_url self) \<and> truthy (KEYCLOAK_CLIENT_ID cfg)
         \<and> truthy (KEYCLOAK_CLIENT_SECRET cfg)
      then
        (let token_url = rstrip_chars ''/'' (str_val (base_url self)) @ ''/token'';
             payload = keycloak_payload cfg;
             tr = [Log INFO ''Authenticating with Keycloak at %s'', Post token_url payload]
         in case post token_url payload of
              Raised exc \<Rightarrow>
                static_key_or_open (tr @ [Log WARNING ''Keycloak auth error: %s'']) self
            | Response status_code b \<Rightarrow>
                if status_code = 200 then
                  (case b of
                     NotJson \<Rightarrow>
                       static_key_or_open (tr @ [Log WARNING ''Keycloak auth error: %s'']) self
                   | Json access_token \<Rightarrow>
                       if truthy access_token
                       then (tr @ [Log INFO ''Keycloak authentication successful''],
                             self\<lparr>token := access_token, auth_mode := ''keycloak''\<rparr>)
                       else static_key_or_open
                              (tr @ [Log WARNING ''Keycloak response did not contain an access_token''])
                              (self\<lparr>token := access_token\<rparr>))
                else static_key_or_open (tr @ [Log WARNING ''Keycloak auth failed: %s - %s'']) self)
      else static_key_or_open [] self)"

text \<open>\<^verbatim>\<open>__init__\<close>: the fields are read from the configuration, then \<^verbatim>\<open>_init_auth\<close> runs.\<close>

definition ct_new :: "config \<Rightarrow> token_endpoint \<Rightarrow> event list \<times> api_client" where
  "ct_new cfg post =
     ct_init_auth cfg post
       \<lparr>base_url = BASE_URL cfg, api_key = INFERENCE_API_KEY cfg, auth_mode = ''open'',
        token = None\<rparr>"

text \<open>
  \<^verbatim>\<open>_get_openai_client\<close>: raises \<^verbatim>\<open>ValueError\<close> without a base URL; the key is the token in
  keycloak mode, the static key in api_key mode, and \<^verbatim>\<open>"no-auth"\<close> otherwise.
\<close>

definition ct_get_openai_client :: "config \<Rightarrow> api_client \<Rightarrow> exn + openai" where
  "ct_get_openai_client cfg self =
     (if \<not> truthy (base_url self)
      then Inl (ValueError ''BASE_URL is not configured in config.py'')
      else
        (let key = (if auth_mode self = ''keycloak'' \<and> truthy (token self)
                    then str_val (token self)
                    else if auth_mode self = ''api_key'' \<and> truthy (api_key self)
                    then str_val (api_key self)
                    else ''no-auth'');
             endpoint_path = strip_chars ''/'' (INFERENCE_MODEL_ENDPOINT cfg);
             full_base = (if endpoint_path \<noteq> []
                          then rstrip_chars ''/'' (str_val (base_url self)) @ ''/'' @ endpoint_path
                          else rstrip_chars ''/'' (str_val (base_url self)))
         in Inr \<lparr>client_api_key = key, client_base_url = full_base\<rparr>))"


section \<open>doc-summarization: \<^verbatim>\<open>APIClient\<close>\<close>

text \<open>
  \<^verbatim>\<open>_init_auth\<close>. The token URL is \<^verbatim>\<open>f"{self.base_url}/token"\<close>, untrimmed. On status 200:
  \<^verbatim>\<open>
    self.token = response.json().get("access_token")
    self.auth_mode = "keycloak"
    logger.info("Keycloak authentication successful")
    return
  \<close>
  with no test of the token.
\<close>

definition ds_init_auth :: "config \<Rightarrow> token_endpoint \<Rightarrow> api_client \<Rightarrow> event list \<times> api_client" where
  "ds_init_auth cfg post self =
     (if truthy (base_url self) \<and> truthy (KEYCLOAK_CLIENT_ID cfg)
         \<and> truthy (KEYCLOAK_CLIENT_SECRET cfg)
      then
        (let token_url = str_val (base_url self) @ ''/token'';
             payload = keycloak_payload cfg;
             tr = [Log INFO ''Authenticating with Keycloak at %s'', Post token_url payload]
         in case post token_url payload of
              Raised exc \<Rightarrow>
                static_key_or_open (tr @ [Log WARNING ''Keycloak auth error: %s'']) self
            | Response status_code b \<Rightarrow>
                if status_code = 200 then
                  (case b of
                     NotJson \<Rightarrow>
                       static_key_or_open (tr @ [Log WARNING ''Keycloak auth error: %s'']) self
                   | Json access_token \<Rightarrow>
                       (tr @ [Log INFO ''Keycloak authentication successful''],
                        self\<lparr>token := access_token, auth_mode := ''keycloak''\<rparr>))
                else static_key_or_open (tr @ [Log WARNING ''Keycloak auth failed: %s - %s'']) self)
      else static_key_or_open [] self)"

definition ds_new :: "config \<Rightarrow> token_endpoint \<Rightarrow> event list \<times> api_client" where
  "ds_new cfg post =
     ds_init_auth cfg post
       \<lparr>base_url = BASE_URL cfg, api_key = INFERENCE_API_KEY cfg, auth_mode = ''open'',
        token = None\<rparr>"

text \<open>
  \<^verbatim>\<open>get_inference_client\<close>: the same choice of key as in code-translation; the base URL is
  \<^verbatim>\<open>f"{self.base_url}/{config.INFERENCE_MODEL_ENDPOINT}/v1"\<close>.
\<close>

definition ds_get_inference_client :: "config \<Rightarrow> api_client \<Rightarrow> exn + openai" where
  "ds_get_inference_client cfg self =
     (if \<not> truthy (base_url self)
      then Inl (ValueError ''BASE_URL is not configured in config.py'')
      else
        (let key = (if auth_mode self = ''keycloak'' \<and> truthy (token self)
                    then str_val (token self)
                    else if auth_mode self = ''api_key'' \<and> truthy (api_key self)
                    then str_val (api_key self)
                    else ''no-auth'')
         in Inr \<lparr>client_api_key = key,
                 client_base_url =
                   str_val (base_url self) @ ''/'' @ INFERENCE_MODEL_ENDPOINT cfg @ ''/v1''\<rparr>))"

text \<open>\<^verbatim>\<open>is_authenticated\<close>: \<^verbatim>\<open>return self.auth_mode in ("keycloak", "api_key")\<close>.\<close>

definition ds_is_authenticated :: "api_client \<Rightarrow> bool" where
  "ds_is_authenticated self = (auth_mode self \<in> set [''keycloak'', ''api_key''])"


section \<open>rag-chatbot: \<^verbatim>\<open>APIClient\<close>\<close>

text \<open>
  \<^verbatim>\<open>_try_keycloak_token\<close>: guarded by the client id and the client secret only; the base
  URL is not tested. The token URL is \<^verbatim>\<open>f"{self.base_url}/token"\<close>.
\<close>

definition rag_try_keycloak_token ::
    "config \<Rightarrow> token_endpoint \<Rightarrow> rag_client \<Rightarrow> event list \<times> string option" where
  "rag_try_keycloak_token cfg post self =
     (if \<not> (truthy (KEYCLOAK_CLIENT_ID cfg) \<and> truthy (KEYCLOAK_CLIENT_SECRET cfg))
      then ([], None)
      else
        (let token_url = str_val (base_url self) @ ''/token'';
             payload = keycloak_payload cfg;
             tr = [Log INFO ''Requesting Keycloak token'', Post token_url payload]
         in case post token_url payload of
              Raised e \<Rightarrow> (tr @ [Log ERROR ''Keycloak auth error: %s''], None)
            | Response status_code b \<Rightarrow>
                if status_code \<noteq> 200
                then (tr @ [Log ERROR ''Keycloak token request failed: %s %s''], None)
                else
                  (case b of
                     NotJson \<Rightarrow> (tr @ [Log ERROR ''Keycloak auth error: %s''], None)
                   | Json access_token \<Rightarrow>
                       if \<not> truthy access_token
                       then (tr @ [Log ERROR ''Keycloak response missing access_token''], None)
                       else (tr, access_token))))"

text \<open>
  \<^verbatim>\<open>_configure_auth\<close>: the token, else the static key, else
  \<^verbatim>\<open>raise ValueError("No gateway auth. ...")\<close>. The trace is kept when it raises.
\<close>

definition rag_configure_auth ::
    "config \<Rightarrow> token_endpoint \<Rightarrow> rag_client \<Rightarrow> event list \<times> (exn + rag_client)" where
  "rag_configure_auth cfg post self =
     (case rag_try_keycloak_token cfg post self of
        (tr, tok) \<Rightarrow>
          if truthy tok
          then (tr @ [Log INFO ''Gateway auth configured with Keycloak token''],
                Inr (self\<lparr>api_key := tok, auth_mode := ''keycloak''\<rparr>))
          else if truthy (INFERENCE_API_KEY cfg)
          then (tr @ [TestStaticKey,
                      Log INFO ''Gateway auth configured with static INFERENCE_API_KEY''],
                Inr (self\<lparr>api_key := INFERENCE_API_KEY cfg,
                           auth_mode := ''inference_api_key''\<rparr>))
          else (tr @ [TestStaticKey],
                Inl (ValueError (''No gateway auth. Set KEYCLOAK_CLIENT_ID and ''
                       @ ''KEYCLOAK_CLIENT_SECRET or INFERENCE_API_KEY.''))))"

text \<open>
  \<^verbatim>\<open>__init__\<close>: \<^verbatim>\<open>config.BASE_URL.rstrip("/")\<close> and \<^verbatim>\<open>config.EMBEDDINGS_BASE_URL.rstrip("/")\<close>
  raise \<^verbatim>\<open>AttributeError\<close> on an unset value; then \<^verbatim>\<open>_configure_http_client\<close> logs and
  \<^verbatim>\<open>_configure_auth\<close> runs.
\<close>

definition rag_new :: "config \<Rightarrow> token_endpoint \<Rightarrow> event list \<times> (exn + rag_client)" where
  "rag_new cfg post =
     (case BASE_URL cfg of
        None \<Rightarrow> ([], Inl AttributeError)
      | Some b \<Rightarrow>
          (case EMBEDDINGS_BASE_URL cfg of
             None \<Rightarrow> ([], Inl AttributeError)
           | Some eb \<Rightarrow>
               (case rag_configure_auth cfg post
                       \<lparr>base_url = Some (rstrip_chars ''/'' b), api_key = None,
                        auth_mode = ''unconfigured'',
                        embeddings_base_url = rstrip_chars ''/'' eb\<rparr> of
                  (tr, r) \<Rightarrow> (Log INFO ''HTTP client initialized for gateway'' # tr, r))))"

text \<open>\<^verbatim>\<open>get_inference_client\<close>.\<close>

definition rag_get_inference_client :: "rag_client \<Rightarrow> openai" where
  "rag_get_inference_client self =
     \<lparr>client_api_key = str_val (api_key self),
      client_base_url = normalize_base (str_val (base_url self))\<rparr>"


section \<open>pdf-podcast: \<^verbatim>\<open>LLMClient\<close>\<close>

text \<open>
  \<^verbatim>\<open>_try_keycloak_token\<close>: one post to \<^verbatim>\<open>f"{self.base_url}/token"\<close> with a timeout of ten
  seconds; every failure is logged and gives \<^verbatim>\<open>None\<close>.
\<close>

definition llm_try_keycloak_token ::
    "config \<Rightarrow> token_endpoint \<Rightarrow> llm_client \<Rightarrow> event list \<times> string option" where
  "llm_try_keycloak_token cfg post self =
     (if \<not> truthy (base_url self) then ([], None)
      else
        (let token_url = str_val (base_url self) @ ''/token'';
             payload = keycloak_payload cfg;
             tr = [Post token_url payload]
         in case post token_url payload of
              Raised e \<Rightarrow> (tr @ [Log ERROR ''LLMClient: Keycloak token request error: %s''], None)
            | Response status_code b \<Rightarrow>
                if status_code = 200 then
                  (case b of
                     NotJson \<Rightarrow>
                       (tr @ [Log ERROR ''LLMClient: Keycloak token request error: %s''], None)
                   | Json access_token \<Rightarrow>
                       if truthy access_token then (tr, access_token)
                       else (tr @ [Log ERROR ''LLMClient: Keycloak response missing access_token''],
                             None))
                else (tr @ [Log ERROR ''LLMClient: Keycloak token request failed %s: %s''], None)))"

text \<open>
  \<^verbatim>\<open>__init__\<close>. Without a base URL (unset, empty, or empty once the trailing slashes are
  trimmed) it logs and returns at once. The second tier is
  \<^verbatim>\<open>if not self.api_key and getattr(settings, "INFERENCE_API_KEY", None)\<close>: the static key
  is read only when no token was obtained. Without any key it logs and returns with no
  client. The model name the constructor also stores takes no part in the resolution and
  is left out.
\<close>

definition llm_new :: "config \<Rightarrow> token_endpoint \<Rightarrow> event list \<times> llm_client" where
  "llm_new cfg post =
     (let b = (if truthy (BASE_URL cfg) then Some (rstrip_chars ''/'' (str_val (BASE_URL cfg)))
               else None);
          self = \<lparr>base_url = b, api_key = None, auth_mode = ''none'', client = None\<rparr>
      in if \<not> truthy (base_url self)
         then ([Log ERROR ''LLMClient: BASE_URL is not set. Local inference endpoint is required.''],
               self)
         else
           (let (tr1, self1) =
                  (if truthy (KEYCLOAK_CLIENT_ID cfg) \<and> truthy (KEYCLOAK_CLIENT_SECRET cfg)
                   then (case llm_try_keycloak_token cfg post self of
                           (tr, tok) \<Rightarrow>
                             if truthy tok
                             then (tr @ [Log INFO
                                     ''LLMClient: using Keycloak access token for local gateway''],
                                   self\<lparr>api_key := tok, auth_mode := ''keycloak''\<rparr>)
                             else (tr, self))
                   else ([], self));
                (tr2, self2) =
                  (if \<not> truthy (api_key self1)
                   then (if truthy (INFERENCE_API_KEY cfg)
                         then (tr1 @ [TestStaticKey,
                                 Log INFO ''LLMClient: using INFERENCE_API_KEY for local gateway''],
                               self1\<lparr>api_key := INFERENCE_API_KEY cfg,
                                      auth_mode := ''inference_api_key''\<rparr>)
                         else (tr1 @ [TestStaticKey], self1))
                   else (tr1, self1))
            in if \<not> truthy (api_key self2)
               then (tr2 @ [Log ERROR (''LLMClient: no auth configured. ''
                               @ ''Set either KEYCLOAK_CLIENT_SECRET or INFERENCE_API_KEY.'')],
                     self2)
               else (tr2 @ [Log INFO (''LLMClient: configured local OpenAI-compatible client ''
                               @ ''at %s/v1 (auth_mode=%s)'')],
                     self2\<lparr>client :=
                       Some \<lparr>client_api_key = str_val (api_key self2),
                             client_base_url = str_val (base_url self2) @ ''/v1''\<rparr>\<rparr>)))"


section \<open>Generation calls\<close>

text \<open>
  What one call of \<^verbatim>\<open>client.chat.completions.create(...)\<close> gives to its caller: it raises,
  or it returns a response whose \<^verbatim>\<open>choices\<close> are given here by the \<^verbatim>\<open>message.content\<close> of
  each choice (a string or \<^verbatim>\<open>None\<close>). A function from numbers gives this for the calls
  of \<^verbatim>\<open>create\<close>, counted from 1.
\<close>

datatype remote = Fails exn | Returns "string option list"

type_synonym remote_calls = "nat \<Rightarrow> remote"

text \<open>
  Beneath \<^verbatim>\<open>create\<close> is the request loop of the OpenAI SDK. Every client of the repository
  is built by \<^verbatim>\<open>OpenAI(api_key=..., base_url=...)\<close> with no \<^verbatim>\<open>max_retries\<close>, so the SDK's
  default of 2 holds: a request that times out, cannot connect, or is answered with
  status 408, 409, 429 or 500 and above is sent again, up to two more times; any other
  error status is raised at once. After the last retry the SDK raises
  \<^verbatim>\<open>APITimeoutError\<close>, \<^verbatim>\<open>APIConnectionError\<close> or the error of the status. What the server
  does to the HTTP requests, counted from 1, is a function from their numbers. The
  short sleeps of the SDK between its retries (a randomised backoff) and the
  \<^verbatim>\<open>x-should-retry\<close> and \<^verbatim>\<open>Retry-After\<close> response headers are not part of the model.
\<close>

datatype http_outcome =
    Answered "string option list"
  | Refused int
  | TimedOut
  | ConnectionFailed

type_synonym http_requests = "nat \<Rightarrow> http_outcome"

definition should_retry :: "int \<Rightarrow> bool" where
  "should_retry status_code =
     (status_code = 408 \<or> status_code = 409 \<or> status_code = 429 \<or> status_code \<ge> 500)"

text \<open>
  The loop \<^verbatim>\<open>for retries_taken in range(max_retries + 1)\<close> of the SDK, sending request
  number \<open>n\<close> next. The result is the number of the last request sent and what \<^verbatim>\<open>create\<close>
  gives to its caller.
\<close>

function sdk_create :: "nat \<Rightarrow> http_requests \<Rightarrow> nat \<Rightarrow> nat \<Rightarrow> nat \<times> remote" where
  "sdk_create max_retries http retries_taken n =
     (case http n of
        Answered choices \<Rightarrow> (n, Returns choices)
      | Refused status_code \<Rightarrow>
          if retries_taken < max_retries \<and> should_retry status_code
          then sdk_create max_retries http (Suc retries_taken) (Suc n)
          else (n, Fails (APIStatusError status_code))
      | TimedOut \<Rightarrow>
          if retries_taken < max_retries
          then sdk_create max_retries http (Suc retries_taken) (Suc n)
          else (n, Fails APITimeoutError)
      | ConnectionFailed \<Rightarrow>
          if retries_taken < max_retries
          then sdk_create max_retries http (Suc retries_taken) (Suc n)
          else (n, Fails APIConnectionError))"
  by pat_completeness auto
termination
  by (relation "measure (\<lambda>(max_retries, http, retries_taken, n). max_retries - retries_taken)")
    auto

text \<open>
  code-translation, \<^verbatim>\<open>translate_code\<close>: the client is built outside the \<^verbatim>\<open>try\<close>; one call of
  \<^verbatim>\<open>create\<close>, which is the SDK's loop from request 1; a response without choices is logged
  and gives \<^verbatim>\<open>""\<close>; the content goes through \<^verbatim>\<open>_strip_code_fences\<close>; an exception is logged
  and raised again. The result is the number of HTTP requests sent, the log events, and
  the value returned or the exception raised.
\<close>

definition ct_translate_code ::
    "config \<Rightarrow> api_client \<Rightarrow> http_requests \<Rightarrow> nat \<times> event list \<times> (exn + string)" where
  "ct_translate_code cfg self http =
     (case ct_get_openai_client cfg self of
        Inl e \<Rightarrow> (0, [], Inl e)
      | Inr cl \<Rightarrow>
          (case sdk_create 2 http 0 1 of
             (n, response) \<Rightarrow>
               (case response of
                  Fails exc \<Rightarrow>
                    (n, [Log INFO ''Translating code from %s to %s'',
                         Log ERROR ''Error translating code: %s''], Inl exc)
                | Returns choices \<Rightarrow>
                    (case choices of
                       [] \<Rightarrow>
                         (n, [Log INFO ''Translating code from %s to %s'',
                              Log ERROR ''Unexpected response structure: %r''], Inr [])
                     | content # rest \<Rightarrow>
                         (n, [Log INFO ''Translating code from %s to %s'',
                              Log INFO ''Successfully translated code (%d characters)''],
                          Inr (strip_code_fences (str_val content)))))))"

text \<open>
  rag-chatbot, \<^verbatim>\<open>complete\<close> (and \<^verbatim>\<open>chat_complete\<close>, which differs in the messages only):
  one call of \<^verbatim>\<open>create\<close> on the client of \<^verbatim>\<open>get_inference_client\<close>;
  \<^verbatim>\<open>msg.content if getattr(msg, "content", None) else ""\<close>; a response without choices is
  logged and gives \<^verbatim>\<open>""\<close>; an exception is logged and raised again.
\<close>

definition rag_complete :: "rag_client \<Rightarrow> http_requests \<Rightarrow> nat \<times> event list \<times> (exn + string)" where
  "rag_complete self http =
     (case sdk_create 2 http 0 1 of
        (n, response) \<Rightarrow>
          (case response of
             Fails e \<Rightarrow> (n, [Log ERROR ''Completion error: %s''], Inl e)
           | Returns choices \<Rightarrow>
               (case choices of
                  [] \<Rightarrow> (n, [Log ERROR ''Unexpected completion response: %r''], Inr [])
                | content # rest \<Rightarrow> (n, [], Inr (str_val content)))))"

text \<open>
  pdf-podcast, the body of \<^verbatim>\<open>generate_with_openai\<close>, one attempt: without a client it
  raises \<^verbatim>\<open>ValueError\<close> and calls nothing; \<^verbatim>\<open>response.choices[0]\<close> raises \<^verbatim>\<open>IndexError\<close> on an
  empty list and \<^verbatim>\<open>len(content)\<close> raises \<^verbatim>\<open>TypeError\<close> on \<^verbatim>\<open>None\<close>; both are raised inside
  the \<^verbatim>\<open>try\<close>, logged and raised again.
\<close>

definition llm_generate_attempt :: "llm_client \<Rightarrow> remote \<Rightarrow> exn + string" where
  "llm_generate_attempt self outcome =
     (if client self = None
      then Inl (ValueError (''LLM client is not configured. Check BASE_URL and either ''
                  @ ''KEYCLOAK_CLIENT_SECRET or INFERENCE_API_KEY.''))
      else
        (case outcome of
           Fails e \<Rightarrow> Inl e
         | Returns choices \<Rightarrow>
             (case choices of
                [] \<Rightarrow> Inl IndexError
              | content # rest \<Rightarrow>
                  (case content of None \<Rightarrow> Inl TypeError | Some c \<Rightarrow> Inr c))))"

text \<open>
  The decorator
  \<^verbatim>\<open>@retry(stop=stop_after_attempt(3), wait=wait_exponential(multiplier=1, min=4, max=10))\<close>
  of the tenacity library. \<^verbatim>\<open>wait_exponential\<close> waits
  \<^verbatim>\<open>max(max(0, min), min(multiplier * 2 ** (attempt_number - 1), max))\<close> seconds after a failed
  attempt. The retrying loop runs the function; a result is returned; after an exception
  it stops when \<^verbatim>\<open>attempt_number >= 3\<close> and raises \<^verbatim>\<open>RetryError\<close> holding the last attempt
  (no \<^verbatim>\<open>reraise=True\<close> is given), and otherwise sleeps and runs the next attempt. The model
  returns the sleeps, in seconds, with the result.
\<close>

definition wait_exponential :: "int \<Rightarrow> int \<Rightarrow> int \<Rightarrow> nat \<Rightarrow> int" where
  "wait_exponential multiplier mn mx attempt_number =
     max (max 0 mn) (min (multiplier * 2 ^ (attempt_number - 1)) mx)"

function retry_call ::
    "nat \<Rightarrow> (nat \<Rightarrow> int) \<Rightarrow> (nat \<Rightarrow> exn + 'a) \<Rightarrow> nat \<Rightarrow> nat \<times> int list \<times> (exn + 'a)" where
  "retry_call stop_after wait f attempt_number =
     (case f attempt_number of
        Inr v \<Rightarrow> (attempt_number, [], Inr v)
      | Inl e \<Rightarrow>
          if attempt_number \<ge> stop_after then (attempt_number, [], Inl (RetryError e))
          else (case retry_call stop_after wait f (Suc attempt_number) of
                  (n, sleeps, r) \<Rightarrow> (n, wait attempt_number # sleeps, r)))"
  by pat_completeness auto
termination
  by (relation "measure (\<lambda>(stop_after, wait, f, attempt_number). stop_after - attempt_number)")
    auto

text \<open>
  \<^verbatim>\<open>generate_with_openai\<close> as the callers see it: the number of attempts made, the sleeps
  between them, and the result.
\<close>

definition llm_generate_with_openai ::
    "llm_client \<Rightarrow> remote_calls \<Rightarrow> nat \<times> int list \<times> (exn + string)" where
  "llm_generate_with_openai self create =
     retry_call 3 (wait_exponential 1 4 10) (\<lambda>k. llm_generate_attempt self (create k)) 1"


text \<open>
  The calls of \<^verbatim>\<open>create\<close> that the retried function makes, over the HTTP requests:
  \<open>requests_through http k\<close> is the number of requests sent by the first \<open>k\<close> calls, and
  call \<open>k\<close> is the SDK's loop from the request after those.
\<close>

fun requests_through :: "http_requests \<Rightarrow> nat \<Rightarrow> nat" where
  "requests_through http 0 = 0"
| "requests_through http (Suc k) = fst (sdk_create 2 http 0 (Suc (requests_through http k)))"

definition sdk_calls :: "http_requests \<Rightarrow> remote_calls" where
  "sdk_calls http k = snd (sdk_create 2 http 0 (Suc (requests_through http (k - 1))))"

text \<open>
  \<^verbatim>\<open>generate_with_openai\<close> over the HTTP requests: the number of requests sent, the number
  of attempts, the sleeps between the attempts, and the result. Without a client no
  attempt sends a request.
\<close>

definition llm_generate_http ::
    "llm_client \<Rightarrow> http_requests \<Rightarrow> nat \<times> nat \<times> int list \<times> (exn + string)" where
  "llm_generate_http self http =
     (case llm_generate_with_openai self (sdk_calls http) of
        (attempts, sleeps, r) \<Rightarrow>
          ((if client self = None then 0 else requests_through http attempts),
           attempts, sleeps, r))"


section \<open>pdf-podcast: \<^verbatim>\<open>TTSClient\<close>\<close>

text \<open>
  \<^verbatim>\<open>TTSClient\<close> keeps the same attributes as \<^verbatim>\<open>LLMClient\<close>. Its constructor takes the
  optional arguments \<^verbatim>\<open>api_key\<close> and \<^verbatim>\<open>base_url\<close> and reads \<^verbatim>\<open>settings.TTS_BASE_URL\<close> and
  \<^verbatim>\<open>settings.TTS_API_KEY\<close>; \<^verbatim>\<open>a or b\<close> is \<^verbatim>\<open>a\<close> when \<^verbatim>\<open>a\<close> passes the truth test and \<^verbatim>\<open>b\<close>
  otherwise.
\<close>

type_synonym tts_client = llm_client

record tts_settings =
  TTS_BASE_URL :: "string option"
  TTS_API_KEY :: "string option"

definition py_or :: "string option \<Rightarrow> string option \<Rightarrow> string option" where
  "py_or a b = (if truthy a then a else b)"

text \<open>
  \<^verbatim>\<open>_try_keycloak_token(base)\<close>: one post to \<^verbatim>\<open>f"{base.rstrip('/')}/token"\<close> with a timeout
  of ten seconds; every failure is logged and gives \<^verbatim>\<open>None\<close>.
\<close>

definition tts_try_keycloak_token ::
    "config \<Rightarrow> token_endpoint \<Rightarrow> string \<Rightarrow> event list \<times> string option" where
  "tts_try_keycloak_token cfg post base =
     (let token_url = rstrip_chars ''/'' base @ ''/token'';
          payload = keycloak_payload cfg;
          tr = [Post token_url payload]
      in case post token_url payload of
           Raised e \<Rightarrow> (tr @ [Log ERROR ''TTSClient: Keycloak token request error: %s''], None)
         | Response status_code b \<Rightarrow>
             if status_code = 200 then
               (case b of
                  NotJson \<Rightarrow>
                    (tr @ [Log ERROR ''TTSClient: Keycloak token request error: %s''], None)
                | Json access_token \<Rightarrow>
                    if truthy access_token then (tr, access_token)
                    else (tr @ [Log ERROR ''TTSClient: Keycloak response missing access_token''],
                          None))
             else (tr @ [Log ERROR ''TTSClient: Keycloak token request failed %s: %s''], None))"

text \<open>
  \<^verbatim>\<open>__init__\<close>: without a base URL it logs and returns; the Keycloak tier runs when the
  client id and secret are set; the static key, the argument or \<^verbatim>\<open>TTS_API_KEY\<close>, is read
  only when no token was obtained; without any key it logs and returns with no client.
  The model name takes no part in the resolution and is left out.
\<close>

definition tts_new ::
    "config \<Rightarrow> tts_settings \<Rightarrow> string option \<Rightarrow> string option \<Rightarrow> token_endpoint
       \<Rightarrow> event list \<times> tts_client" where
  "tts_new cfg settings api_key_arg base_url_arg post =
     (let self = \<lparr>base_url = py_or base_url_arg (TTS_BASE_URL settings), api_key = None,
                  auth_mode = ''none'', client = None\<rparr>
      in if \<not> truthy (base_url self)
         then ([Log ERROR ''TTSClient: TTS_BASE_URL is not set, gateway is required''], self)
         else
           (let base = rstrip_chars ''/'' (str_val (base_url self));
                (tr1, self1) =
                  (if truthy (KEYCLOAK_CLIENT_ID cfg) \<and> truthy (KEYCLOAK_CLIENT_SECRET cfg)
                   then (case tts_try_keycloak_token cfg post base of
                           (tr, tok) \<Rightarrow>
                             if truthy tok
                             then (tr @ [Log INFO ''TTSClient: using Keycloak access token''],
                                   self\<lparr>api_key := tok, auth_mode := ''keycloak''\<rparr>)
                             else (tr @ [Log WARNING
                                     ''TTSClient: Keycloak auth failed, will try TTS_API_KEY''],
                                   self))
                   else ([], self));
                (tr2, self2) =
                  (if \<not> truthy (api_key self1)
                   then (if truthy (py_or api_key_arg (TTS_API_KEY settings))
                         then (tr1 @ [TestStaticKey, Log INFO ''TTSClient: using TTS_API_KEY''],
                               self1\<lparr>api_key := py_or api_key_arg (TTS_API_KEY settings),
                                      auth_mode := ''tts_api_key''\<rparr>)
                         else (tr1 @ [TestStaticKey], self1))
                   else (tr1, self1))
            in if \<not> truthy (api_key self2)
               then (tr2 @ [Log ERROR (''TTSClient: no auth configured, set either Keycloak ''
                               @ ''credentials or TTS_API_KEY'')],
                     self2)
               else (tr2 @ [Log INFO
                       ''TTSClient: configured with base_url=%s, model=%s, auth_mode=%s''],
                     self2\<lparr>client :=
                       Some \<lparr>client_api_key = str_val (api_key self2),
                             client_base_url = tts_final_base (str_val (base_url self2))\<rparr>\<rparr>)))"


section \<open>Batch speech generation\<close>

text \<open>
  A path is its list of components; \<^verbatim>\<open>output_dir / name\<close> appends one. \<^verbatim>\<open>f"{i:03d}"\<close> is
  the decimal numeral of \<^verbatim>\<open>i\<close>, padded with zeros on the left to three characters.
\<close>

type_synonym path = "string list"

definition path_join :: "path \<Rightarrow> string \<Rightarrow> path" where
  "path_join d name = d @ [name]"

fun decimal :: "nat \<Rightarrow> string" where
  "decimal n =
     (if n < 10 then [char_of (48 + n)] else decimal (n div 10) @ [char_of (48 + n mod 10)])"

definition format_03d :: "nat \<Rightarrow> string" where
  "format_03d i = replicate (3 - length (decimal i)) CHR ''0'' @ decimal i"

definition segment_path :: "path \<Rightarrow> nat \<Rightarrow> path" where
  "segment_path output_dir i = path_join output_dir (''segment_'' @ format_03d i @ ''.mp3'')"

text \<open>
  A task is the coroutine \<^verbatim>\<open>self.generate_speech(text=..., voice=..., output_path=...)\<close>,
  created and not yet started. The loop of \<^verbatim>\<open>generate_speech_batch\<close>:
  \<^verbatim>\<open>
    for i, (text, voice) in enumerate(zip(texts, voices)):
        output_path = output_dir / f"segment_{i:03d}.mp3"
        output_paths.append(output_path)
        task = self.generate_speech(text=text, voice=voice, output_path=output_path)
        tasks.append(task)
  \<close>
\<close>

record task =
  "text" :: string
  voice :: string
  output_path :: path

fun batch_loop ::
    "path \<Rightarrow> nat \<Rightarrow> (string \<times> string) list \<Rightarrow> task list \<times> path list \<Rightarrow> task list \<times> path list" where
  "batch_loop output_dir i [] (tasks, output_paths) = (tasks, output_paths)"
| "batch_loop output_dir i ((t, v) # rest) (tasks, output_paths) =
     batch_loop output_dir (Suc i) rest
       (tasks @ [\<lparr>text = t, voice = v, output_path = segment_path output_dir i\<rparr>],
        output_paths @ [segment_path output_dir i])"

text \<open>
  The gathering phase:
  \<^verbatim>\<open>
    semaphore = asyncio.Semaphore(settings.MAX_CONCURRENT_REQUESTS)
    async def bounded(task):
        async with semaphore:
            return await task
    await asyncio.gather(*[bounded(t) for t in tasks])
  \<close>
  Each job waits for the semaphore, holds it while its task runs (the remote call is in
  flight), and releases it when the task ends. A state keeps the jobs still waiting and
  the jobs in flight, each with its number and its task, the numbers of the jobs done, and
  the semaphore's value. Which job moves next is the scheduler's choice: a schedule is a
  list of moves, and a move that the state does not allow stops the run.
\<close>

datatype move = Acquire nat | Complete nat

record gather_state =
  waiting :: "(nat \<times> task) list"
  in_flight :: "(nat \<times> task) list"
  finished :: "nat list"
  permits :: nat

definition gather_init :: "task list \<Rightarrow> nat \<Rightarrow> gather_state" where
  "gather_init tasks limit =
     \<lparr>waiting = enumerate 0 tasks, in_flight = [], finished = [], permits = limit\<rparr>"

text \<open>A move gives the task of the job that moves and the next state.\<close>

fun sched_step :: "move \<Rightarrow> gather_state \<Rightarrow> (task \<times> gather_state) option" where
  "sched_step (Acquire i) s =
     (case map_of (waiting s) i of
        None \<Rightarrow> None
      | Some t \<Rightarrow>
          if 0 < permits s
          then Some (t, s\<lparr>waiting := remove1 (i, t) (waiting s),
                           in_flight := (i, t) # in_flight s,
                           permits := permits s - 1\<rparr>)
          else None)"
| "sched_step (Complete i) s =
     (case map_of (in_flight s) i of
        None \<Rightarrow> None
      | Some t \<Rightarrow>
          Some (t, s\<lparr>in_flight := remove1 (i, t) (in_flight s),
                      finished := finished s @ [i],
                      permits := permits s + 1\<rparr>))"

fun run_schedule :: "move list \<Rightarrow> gather_state \<Rightarrow> gather_state option" where
  "run_schedule [] s = Some s"
| "run_schedule (m # ms) s =
     (case sched_step m s of None \<Rightarrow> None | Some (t, s') \<Rightarrow> run_schedule ms s')"

text \<open>A schedule completes a batch when it can be run to the end and leaves no job behind.\<close>

definition completes :: "move list \<Rightarrow> gather_state \<Rightarrow> bool" where
  "completes ms s =
     (case run_schedule ms s of
        None \<Rightarrow> False
      | Some s' \<Rightarrow> waiting s' = [] \<and> in_flight s' = [])"

text \<open>
  What the batch does that can be observed: the remote call \<^verbatim>\<open>audio.speech.create\<close> of a
  job, issued with the task's text and voice; the audio written to the task's output
  path; and the logger calls, with their format string and arguments.
\<close>

datatype arg = Str string | Num nat | PathArg path | Exc exn

datatype batch_event = Call nat task | Written path string | Logged level string "arg list"

text \<open>
  \<^verbatim>\<open>generate_speech\<close>, run by the job that moves. When the job gets the semaphore, the task
  raises \<^verbatim>\<open>RuntimeError\<close> at once if the client is not configured; otherwise it logs and
  issues the remote call. When the remote call of job \<open>i\<close> ends, \<open>speech i t\<close> is what it
  gives for task \<open>t\<close>: the audio bytes, which are written to the output path and logged, or
  an exception, which is logged and raised again.

  \<^verbatim>\<open>asyncio.gather\<close> returns once every job is done, and raises the exception of the first
  job that fails; the trace ends there. A schedule that ends, or asks for a move the
  state does not allow, before every job is done gives \<^const>\<open>None\<close>: the call does not
  return. The result holds the events, the states passed through, and the outcome.
\<close>

fun gather ::
    "bool \<Rightarrow> (nat \<Rightarrow> task \<Rightarrow> exn + string) \<Rightarrow> move list \<Rightarrow> gather_state
       \<Rightarrow> batch_event list \<times> gather_state list \<times> (exn + unit) option" where
  "gather configured speech ms s =
     (if waiting s = [] \<and> in_flight s = [] then ([], [s], Some (Inr ()))
      else
        (case ms of
           [] \<Rightarrow> ([], [s], None)
         | m # rest \<Rightarrow>
             (case sched_step m s of
                None \<Rightarrow> ([], [s], None)
              | Some (t, s') \<Rightarrow>
                  (case m of
                     Acquire i \<Rightarrow>
                       if \<not> configured
                       then ([], [s],
                             Some (Inl (RuntimeError (''TTSClient is not configured, check ''
                                          @ ''TTS_BASE_URL and auth settings''))))
                       else
                         (case gather configured speech rest s' of
                            (ev, sts, r) \<Rightarrow>
                              ([Logged INFO ''Generating speech: voice=%s, length=%d chars''
                                  [Str (voice t), Num (length (text t))],
                                Call i t] @ ev,
                               s # sts, r))
                   | Complete i \<Rightarrow>
                       (case speech i t of
                          Inl e \<Rightarrow>
                            ([Logged ERROR ''Speech generation failed: %s'' [Exc e]],
                             [s, s'], Some (Inl e))
                        | Inr audio \<Rightarrow>
                            (case gather configured speech rest s' of
                               (ev, sts, r) \<Rightarrow>
                                 ([Written (output_path t) audio,
                                   Logged INFO ''Saved audio to %s'' [PathArg (output_path t)],
                                   Logged INFO ''Generated %d bytes of audio''
                                     [Num (length audio)]] @ ev,
                                  s # sts, r)))))))"

text \<open>
  \<^verbatim>\<open>generate_speech_batch\<close>. \<^verbatim>\<open>asyncio.Semaphore\<close> raises \<^verbatim>\<open>ValueError\<close> on a negative
  value. When the gathering returns, the number of segments is logged and the list
  \<^verbatim>\<open>output_paths\<close> built by the loop is returned. Creating the directories and a failure
  to write a file are effects of the file system and are not part of the model;
  \<^verbatim>\<open>settings.MAX_CONCURRENT_REQUESTS\<close> is a parameter.
\<close>

definition generate_speech_batch ::
    "tts_client \<Rightarrow> string list \<Rightarrow> string list \<Rightarrow> path \<Rightarrow> int
       \<Rightarrow> (nat \<Rightarrow> task \<Rightarrow> exn + string) \<Rightarrow> move list
       \<Rightarrow> batch_event list \<times> gather_state list \<times> (exn + path list) option" where
  "generate_speech_batch self texts voices output_dir MAX_CONCURRENT_REQUESTS speech schedule =
     (case batch_loop output_dir 0 (zip texts voices) ([], []) of
        (tasks, output_paths) \<Rightarrow>
          if MAX_CONCURRENT_REQUESTS < 0
          then ([], [], Some (Inl (ValueError ''Semaphore initial value must be >= 0'')))
          else
            (case gather (client self \<noteq> None) speech schedule
                    (gather_init tasks (nat MAX_CONCURRENT_REQUESTS)) of
               (ev, sts, r) \<Rightarrow>
                 (case r of
                    None \<Rightarrow> (ev, sts, None)
                  | Some (Inl e) \<Rightarrow> (ev, sts, Some (Inl e))
                  | Some (Inr u) \<Rightarrow>
                      (ev @ [Logged INFO ''Generated %d audio segments''
                               [Num (length output_paths)]],
                       sts, Some (Inr output_paths)))))"

text \<open>The schedule that runs the jobs one after the other, in input order.\<close>

definition one_by_one :: "nat \<Rightarrow> move list" where
  "one_by_one n = concat (map (\<lambda>i. [Acquire i, Complete i]) [0..<n])"


section \<open>Statement vocabulary and sample inputs\<close>

text \<open>
  A response of the token endpoint grants a token when its status is 200 and its JSON
  body holds a non-empty \<^verbatim>\<open>access_token\<close>.
\<close>

definition grants_token :: "http_result \<Rightarrow> bool" where
  "grants_token r =
     (case r of
        Raised e \<Rightarrow> False
      | Response status_code b \<Rightarrow>
          (case b of
             NotJson \<Rightarrow> False
           | Json access_token \<Rightarrow> status_code = 200 \<and> truthy access_token))"

text \<open>
  An HTTP outcome is retryable when the SDK sends the request again after it: a timeout,
  a failed connection, or a status for which \<^const>\<open>should_retry\<close> holds.
\<close>

definition retryable :: "http_outcome \<Rightarrow> bool" where
  "retryable outcome =
     (case outcome of
        Answered choices \<Rightarrow> False
      | Refused status_code \<Rightarrow> should_retry status_code
      | TimedOut \<Rightarrow> True
      | ConnectionFailed \<Rightarrow> True)"

text \<open>
  The remote calls issued in a trace of the batch, each with the number of its job and its
  task, and the audio files written, in the order of the trace. A remote call is in flight
  from its \<^const>\<open>Call\<close> event to the event that records its answer.
\<close>

fun calls :: "batch_event list \<Rightarrow> (nat \<times> task) list" where
  "calls [] = []"
| "calls (Call i t # ev) = (i, t) # calls ev"
| "calls (Written p audio # ev) = calls ev"
| "calls (Logged lv f args # ev) = calls ev"

fun written :: "batch_event list \<Rightarrow> (path \<times> string) list" where
  "written [] = []"
| "written (Call i t # ev) = written ev"
| "written (Written p audio # ev) = (p, audio) # written ev"
| "written (Logged lv f args # ev) = written ev"

text \<open>A configuration with every value set, and one with neither secret nor static key.\<close>

definition full_cfg :: config where
  "full_cfg = \<lparr>BASE_URL = Some ''http://gw'', EMBEDDINGS_BASE_URL = Some ''http://emb'',
      KEYCLOAK_CLIENT_ID = Some ''api'', KEYCLOAK_CLIENT_SECRET = Some ''s3cret'',
      INFERENCE_API_KEY = Some ''sk-1'', INFERENCE_MODEL_ENDPOINT = ''v1/chat/completions''\<rparr>"

definition no_auth_cfg :: config where
  "no_auth_cfg = \<lparr>BASE_URL = Some ''http://gw'', EMBEDDINGS_BASE_URL = Some ''http://emb'',
      KEYCLOAK_CLIENT_ID = Some ''api'', KEYCLOAK_CLIENT_SECRET = Some [],
      INFERENCE_API_KEY = Some [], INFERENCE_MODEL_ENDPOINT = ''v1/chat/completions''\<rparr>"

text \<open>A configured client of pdf-podcast, as \<^verbatim>\<open>LLMClient.__init__\<close> leaves it.\<close>

definition ready_llm :: llm_client where
  "ready_llm = \<lparr>base_url = Some ''http://gw'', api_key = Some ''sk-1'',
      auth_mode = ''inference_api_key'',
      client = Some \<lparr>client_api_key = ''sk-1'', client_base_url = ''http://gw/v1''\<rparr>\<rparr>"

text \<open>
  A client of code-translation in api_key mode and one of rag-chatbot with a static key; a
  server that refuses the first request with status 401 and answers every later one; a
  server whose first two requests time out and whose third is answered; and a server that
  never answers in time.
\<close>

definition ready_ct :: api_client where
  "ready_ct = \<lparr>base_url = Some ''http://gw'', api_key = Some ''sk-1'', auth_mode = ''api_key'',
      token = None\<rparr>"

definition ready_rag :: rag_client where
  "ready_rag = \<lparr>base_url = Some ''http://gw'', api_key = Some ''sk-1'',
      auth_mode = ''inference_api_key'', embeddings_base_url = ''http://emb''\<rparr>"

definition refused_once :: http_requests where
  "refused_once n = (if n = 1 then Refused 401 else Answered [Some ''ok''])"

definition slow_start :: http_requests where
  "slow_start n = (if n < 3 then TimedOut else Answered [Some ''ok''])"

definition always_slow :: http_requests where
  "always_slow n = TimedOut"

text \<open>
  A configured TTS client, five texts with their voices, and a schedule for them under a
  limit of two in which the jobs neither start nor end in input order.
\<close>

definition ready_tts :: tts_client where
  "ready_tts = \<lparr>base_url = Some ''http://tts'', api_key = Some ''sk-2'',
      auth_mode = ''tts_api_key'',
      client = Some \<lparr>client_api_key = ''sk-2'', client_base_url = ''http://tts/v1''\<rparr>\<rparr>"

definition five_texts :: "string list" where
  "five_texts = [''a'', ''bb'', ''ccc'', ''dddd'', ''eeeee'']"

definition five_voices :: "string list" where
  "five_voices = [''alloy'', ''echo'', ''fable'', ''onyx'', ''nova'']"

definition shuffled :: "move list" where
  "shuffled = [Acquire 3, Acquire 0, Complete 0, Acquire 4, Complete 4, Acquire 1, Complete 3,
     Acquire 2, Complete 2, Complete 1]"

definition echo_speech :: "nat \<Rightarrow> task \<Rightarrow> exn + string" where
  "echo_speech i t = Inr (voice t @ '':'' @ text t)"

text \<open>
  Three texts with two voices only, and a schedule for two jobs in which the second job
  starts and ends first.
\<close>

definition three_texts :: "string list" where
  "three_texts = [''a'', ''bb'', ''ccc'']"

definition two_voices :: "string list" where
  "two_voices = [''alloy'', ''echo'']"

definition crossed :: "move list" where
  "crossed = [Acquire 1, Acquire 0, Complete 1, Complete 0]"

declare gather.simps [simp del]

declare sched_step.simps [simp del]

declare sdk_create.simps [simp del]

declare retry_call.simps [simp del]


section \<open>Properties of the string operations\<close>

lemma rstrip_chars_last:
  "rstrip_chars cs s \<noteq> [] \<Longrightarrow> last (rstrip_chars cs s) \<notin> set cs"
  unfolding rstrip_chars_def
  by (metis (mono_tags, lifting) hd_dropWhile hd_rev rev_is_Nil_conv rev_rev_ident)

lemma rstrip_chars_fixed:
  "s \<noteq> [] \<Longrightarrow> last s \<notin> set cs \<Longrightarrow> rstrip_chars cs s = s"
  unfolding rstrip_chars_def by (cases s rule: rev_cases) auto

lemma endswith_last:
  "endswith s p \<Longrightarrow> p \<noteq> [] \<Longrightarrow> s \<noteq> [] \<and> last s = last p"
  unfolding endswith_def
  by (metis append_take_drop_id last_appendR list.size(3) le_zero_eq length_0_conv)

lemma endswith_append: "endswith (s @ p) p"
  by (simp add: endswith_def)

lemma endswith_append_same_length:
  "length p = length q \<Longrightarrow> endswith (s @ p) (r @ q) \<Longrightarrow> endswith s r \<and> p = q"
  unfolding endswith_def by auto

lemma rstrip_slash_v1:
  assumes "endswith s ''/v1''"
  shows "rstrip_chars ''/'' s = s"
proof -
  from endswith_last[OF assms] have "s \<noteq> []" "last s = CHR ''1''" by simp_all
  then show ?thesis by (intro rstrip_chars_fixed) simp_all
qed

lemma no_second_suffix:
  "\<not> endswith b ''/v1'' \<Longrightarrow> \<not> endswith (b @ ''/v1'') ''/v1/v1''"
  using endswith_append_same_length[of "''/v1''" "''/v1''" b "''/v1''"] by auto

lemma length_strip_le:
  "length (lstrip_chars cs s) \<le> length s"
  "length (rstrip_chars cs s) \<le> length s"
  "length (strip_chars cs s) \<le> length s"
  unfolding lstrip_chars_def rstrip_chars_def strip_chars_def
  by (simp_all add: length_dropWhile_le le_trans[OF length_dropWhile_le])

lemma dropWhile_same_length:
  "length (dropWhile P xs) = length xs \<Longrightarrow> dropWhile P xs = xs"
  by (metis append_self_conv2 length_0_conv length_append add_cancel_left_left
      takeWhile_dropWhile_id)

lemma strip_chars_same_length:
  assumes "length (strip_chars cs s) = length s"
  shows "strip_chars cs s = s"
proof -
  have a: "length (strip_chars cs s) \<le> length (rstrip_chars cs s)"
    unfolding strip_chars_def by (rule length_strip_le)
  have b: "length (rstrip_chars cs s) \<le> length s" by (rule length_strip_le)
  from a b assms have r: "length (rstrip_chars cs s) = length s" by simp
  then have "length (dropWhile (\<lambda>c. c \<in> set cs) (rev s)) = length (rev s)"
    by (simp add: rstrip_chars_def)
  then have "rstrip_chars cs s = s"
    unfolding rstrip_chars_def by (simp add: dropWhile_same_length)
  with assms show ?thesis
    unfolding strip_chars_def lstrip_chars_def by (simp add: dropWhile_same_length)
qed

lemma find_char_less: "find_char c s = Some i \<Longrightarrow> i < length s"
  by (induction s arbitrary: i) (auto split: if_splits)


section \<open>Base-URL normalization: properties\<close>

lemma normalize_base_idem: "normalize_base (normalize_base url) = normalize_base url"
  by (simp add: normalize_base_def endswith_append)

text \<open>
  Claim C8, as amended. Base-URL normalization, as rag-chatbot and the TTS client of
  pdf-podcast apply it to the configured URL \<open>u\<close>, is idempotent; both compute the same
  URL; the result ends in \<open>/v1\<close>; the trailing slashes of \<open>u\<close> are trimmed first; a trimmed
  URL that ends in \<open>/v1\<close> is returned as it is, and any other gets \<open>/v1\<close> appended once, so
  that the result does not end in \<open>/v1/v1\<close>.
\<close>

theorem base_url_normalization:
  "rag_client_base_url (rag_client_base_url u) = rag_client_base_url u
   \<and> tts_final_base (tts_final_base u) = tts_final_base u
   \<and> tts_final_base u = rag_client_base_url u
   \<and> endswith (rag_client_base_url u) ''/v1''
   \<and> \<not> endswith (rstrip_chars ''/'' u) ''/''
   \<and> (endswith (rstrip_chars ''/'' u) ''/v1'' \<longrightarrow> rag_client_base_url u = rstrip_chars ''/'' u)
   \<and> (\<not> endswith (rstrip_chars ''/'' u) ''/v1'' \<longrightarrow>
        rag_client_base_url u = rstrip_chars ''/'' u @ ''/v1''
        \<and> \<not> endswith (rag_client_base_url u) ''/v1/v1'')"
proof -
  let ?b = "rstrip_chars ''/'' u"
  have e: "endswith (rag_client_base_url u) ''/v1''"
    by (simp add: rag_client_base_url_def normalize_base_def endswith_append)
  have i: "rag_client_base_url (rag_client_base_url u) = rag_client_base_url u"
    using e rstrip_slash_v1[OF e] by (simp add: rag_client_base_url_def normalize_base_def)
  have t: "tts_final_base u = rag_client_base_url u"
    by (simp add: tts_final_base_def rag_client_base_url_def normalize_base_def)
  have s: "\<not> endswith ?b ''/''"
    using rstrip_chars_last[of "''/''" u] endswith_last[of ?b "''/''"] by auto
  have y: "endswith ?b ''/v1'' \<longrightarrow> rag_client_base_url u = ?b"
    by (simp add: rag_client_base_url_def normalize_base_def)
  have n: "\<not> endswith ?b ''/v1'' \<longrightarrow>
        rag_client_base_url u = ?b @ ''/v1'' \<and> \<not> endswith (rag_client_base_url u) ''/v1/v1''"
    using no_second_suffix[of ?b] by (simp add: rag_client_base_url_def normalize_base_def)
  have i2: "tts_final_base (tts_final_base u) = tts_final_base u"
    using i t by (simp add: tts_final_base_def rag_client_base_url_def normalize_base_def)
  from e i i2 t s y n show ?thesis by blast
qed

theorem base_url_normalization_witness:
  "\<not> endswith (rstrip_chars ''/'' ''http://gw/'') ''/v1''
   \<and> rag_client_base_url ''http://gw/'' = ''http://gw/v1''
   \<and> endswith (rstrip_chars ''/'' ''http://gw/v1/'') ''/v1''
   \<and> rag_client_base_url ''http://gw/v1/'' = ''http://gw/v1''"
proof -
  have a: "\<not> endswith (rstrip_chars ''/'' ''http://gw/'') ''/v1''" by code_simp
  have b: "endswith (rstrip_chars ''/'' ''http://gw/v1/'') ''/v1''" by code_simp
  have a': "rstrip_chars ''/'' ''http://gw/'' @ ''/v1'' = ''http://gw/v1''" by code_simp
  have b': "rstrip_chars ''/'' ''http://gw/v1/'' = ''http://gw/v1''" by code_simp
  from a b a' b' base_url_normalization[of "''http://gw/''"]
    base_url_normalization[of "''http://gw/v1/''"]
  show ?thesis by metis
qed

text \<open>
  Claim C8 as stated fails where it says that the result ends in exactly one \<open>/v1\<close>: a
  base URL that already ends in \<open>/v1/v1\<close> is returned unchanged.
\<close>

theorem normalize_base_keeps_repeated_suffix:
  "rag_client_base_url ''http://gw/v1/v1'' = ''http://gw/v1/v1''
   \<and> tts_final_base ''http://gw/v1/v1'' = ''http://gw/v1/v1''
   \<and> endswith (rag_client_base_url ''http://gw/v1/v1'') ''/v1/v1''"
  by code_simp


section \<open>Fence stripping: properties\<close>

lemma startswith_prefix: "startswith s p = prefix p s"
proof
  assume "startswith s p"
  then have "take (length p) s = p" by (simp add: startswith_def)
  then have "s = p @ drop (length p) s" using append_take_drop_id[of "length p" s] by simp
  then show "prefix p s" by (rule prefixI)
next
  assume "prefix p s"
  then obtain z where "s = p @ z" by (rule prefixE)
  then show "startswith s p" by (simp add: startswith_def)
qed

lemma endswith_suffix: "endswith s p = suffix p s"
proof
  assume e: "endswith s p"
  then have "drop (length s - length p) s = p" by (simp add: endswith_def)
  then have "s = take (length s - length p) s @ p"
    using append_take_drop_id[of "length s - length p" s] by simp
  then show "suffix p s" by (rule suffixI)
next
  assume "suffix p s"
  then obtain z where "s = z @ p" by (rule suffixE)
  then show "endswith s p" by (simp add: endswith_def)
qed

lemma rstrip_chars_decomp:
  "\<exists>w. s = rstrip_chars cs s @ w \<and> set w \<subseteq> set cs"
proof -
  let ?P = "\<lambda>c. c \<in> set cs"
  let ?w = "rev (takeWhile ?P (rev s))"
  have e: "takeWhile ?P (rev s) @ dropWhile ?P (rev s) = rev s" by simp
  have "rev (dropWhile ?P (rev s)) @ ?w = rev (takeWhile ?P (rev s) @ dropWhile ?P (rev s))"
    by (simp only: rev_append)
  also have "\<dots> = s" by (simp only: e rev_rev_ident)
  finally have "s = rstrip_chars cs s @ ?w" by (simp add: rstrip_chars_def)
  moreover have "set ?w \<subseteq> set cs" by (auto dest: set_takeWhileD)
  ultimately show ?thesis by blast
qed

lemma lstrip_chars_decomp:
  "\<exists>w. s = w @ lstrip_chars cs s \<and> set w \<subseteq> set cs"
proof -
  let ?P = "\<lambda>c. c \<in> set cs"
  have "s = takeWhile ?P s @ lstrip_chars cs s" by (simp add: lstrip_chars_def)
  moreover have "set (takeWhile ?P s) \<subseteq> set cs" by (auto dest: set_takeWhileD)
  ultimately show ?thesis by blast
qed

lemma strip_chars_decomp:
  "\<exists>w1 w2. s = w1 @ strip_chars cs s @ w2 \<and> set w1 \<subseteq> set cs \<and> set w2 \<subseteq> set cs"
proof -
  obtain w2 where r: "s = rstrip_chars cs s @ w2" "set w2 \<subseteq> set cs"
    using rstrip_chars_decomp by blast
  obtain w1 where l: "rstrip_chars cs s = w1 @ strip_chars cs s" "set w1 \<subseteq> set cs"
    using lstrip_chars_decomp[of "rstrip_chars cs s" cs] by (auto simp: strip_chars_def)
  from r(1) l(1) have "s = (w1 @ strip_chars cs s) @ w2" by simp
  then have "s = w1 @ strip_chars cs s @ w2" by (simp only: append_assoc)
  with l(2) r(2) show ?thesis by blast
qed

lemma fence_split:
  assumes "startswith a f" "endswith a f" "2 * length f \<le> length a"
  shows "a = f @ drop (length f) (take (length a - length f) a) @ f"
proof -
  define h where "h = take (length a - length f) a"
  from assms(2) have e: "drop (length a - length f) a = f" by (simp add: endswith_def)
  have "a = take (length a - length f) a @ drop (length a - length f) a" by simp
  then have 1: "a = h @ f" by (simp only: e h_def)
  from assms(3) have "length f \<le> length a - length f" by simp
  then have "take (length f) h = take (length f) a" by (simp add: h_def min_def)
  with assms(1) have "take (length f) h = f" by (simp add: startswith_def)
  then have "f @ drop (length f) h = h" using append_take_drop_id[of "length f" h] by simp
  then have "h @ f = (f @ drop (length f) h) @ f" by simp
  with 1 have "a = (f @ drop (length f) h) @ f" by simp
  then show ?thesis by (simp only: append_assoc h_def)
qed

lemma find_char_None: "(find_char c s = None) = (c \<notin> set s)"
  by (induction s) auto

lemma find_char_split:
  "find_char c s = Some i \<Longrightarrow>
     take i s = takeWhile (\<lambda>x. x \<noteq> c) s \<and> take i s @ c # drop (Suc i) s = s
       \<and> c \<notin> set (take i s)"
proof (induction s arbitrary: i)
  case Nil
  then show ?case by simp
next
  case (Cons x xs)
  show ?case
  proof (cases "x = c")
    case True
    with Cons.prems show ?thesis by simp
  next
    case False
    with Cons.prems obtain j where j: "find_char c xs = Some j" "i = Suc j" by auto
    note ih = Cons.IH[OF j(1)]
    from ih have a: "takeWhile (\<lambda>x. x \<noteq> c) xs = take j xs" by simp
    from ih have b: "take j xs @ c # drop (Suc j) xs = xs" by blast
    from ih have d: "c \<notin> set (take j xs)" by blast
    from False show ?thesis by (simp add: j(2) a b d)
  qed
qed

lemma find_char_first_line:
  "find_char c s = Some i \<Longrightarrow> take i s = takeWhile (\<lambda>x. x \<noteq> c) s"
  using find_char_split by blast

lemma find_char_append:
  assumes "find_char c s = Some i"
  shows "s = (take i s @ [c]) @ drop (Suc i) s"
proof -
  from find_char_split[OF assms] have "take i s @ c # drop (Suc i) s = s" by blast
  then have "(take i s @ [c]) @ drop (Suc i) s = s" by simp
  then show ?thesis by (rule sym)
qed

lemma find_char_not_before:
  "find_char c s = Some i \<Longrightarrow> c \<notin> set (take i s)"
  using find_char_split by blast

lemma lstrip_chars_fixed: "(lstrip_chars cs s = s) = (s = [] \<or> hd s \<notin> set cs)"
  by (simp add: lstrip_chars_def dropWhile_eq_self_iff)

lemma rstrip_chars_fixed_iff: "(rstrip_chars cs s = s) = (s = [] \<or> last s \<notin> set cs)"
proof (cases "s = []")
  case True
  then show ?thesis by (simp add: rstrip_chars_def)
next
  case False
  show ?thesis
  proof
    assume "rstrip_chars cs s = s"
    with False rstrip_chars_last[of cs s] show "s = [] \<or> last s \<notin> set cs" by simp
  next
    assume "s = [] \<or> last s \<notin> set cs"
    with False show "rstrip_chars cs s = s" by (simp add: rstrip_chars_fixed)
  qed
qed

lemma strip_chars_fixed_iff:
  "(strip_chars cs s = s) = (s = [] \<or> (hd s \<notin> set cs \<and> last s \<notin> set cs))"
proof
  assume f: "strip_chars cs s = s"
  then have "length (strip_chars cs s) = length s" by simp
  moreover have "length (strip_chars cs s) \<le> length (rstrip_chars cs s)"
    unfolding strip_chars_def by (rule length_strip_le)
  moreover have "length (rstrip_chars cs s) \<le> length s" by (rule length_strip_le)
  ultimately have "length (rstrip_chars cs s) = length s" by simp
  then have "length (dropWhile (\<lambda>c. c \<in> set cs) (rev s)) = length (rev s)"
    by (simp add: rstrip_chars_def)
  then have r: "rstrip_chars cs s = s"
    unfolding rstrip_chars_def by (simp add: dropWhile_same_length)
  with f have l: "lstrip_chars cs s = s" by (simp add: strip_chars_def)
  from r have "s = [] \<or> last s \<notin> set cs" by (simp add: rstrip_chars_fixed_iff)
  moreover from l have "s = [] \<or> hd s \<notin> set cs" by (simp add: lstrip_chars_fixed)
  ultimately show "s = [] \<or> (hd s \<notin> set cs \<and> last s \<notin> set cs)" by blast
next
  assume a: "s = [] \<or> (hd s \<notin> set cs \<and> last s \<notin> set cs)"
  then have r: "rstrip_chars cs s = s" by (auto simp: rstrip_chars_fixed_iff)
  from a have l: "lstrip_chars cs s = s" by (auto simp: lstrip_chars_fixed)
  show "strip_chars cs s = s" by (simp add: strip_chars_def r l)
qed

lemma py_strip_fixed_iff: "(py_strip s = s) = no_outer_whitespace s"
  by (simp add: py_strip_def no_outer_whitespace_def strip_chars_fixed_iff)

lemma lstrip_chars_keeps_end:
  assumes "s \<noteq> []" "last s \<notin> set cs"
  shows "lstrip_chars cs s \<noteq> []" and "last (lstrip_chars cs s) = last s"
    and "hd (lstrip_chars cs s) \<notin> set cs"
proof -
  let ?P = "\<lambda>c. c \<in> set cs"
  from assms have "last s \<in> set s" "\<not> ?P (last s)" by simp_all
  then have ne: "dropWhile ?P s \<noteq> []" by (auto simp: dropWhile_eq_Nil_conv)
  then show "lstrip_chars cs s \<noteq> []" by (simp add: lstrip_chars_def)
  have "s = takeWhile ?P s @ dropWhile ?P s" by simp
  then have "last s = last (takeWhile ?P s @ dropWhile ?P s)" by simp
  also have "\<dots> = last (dropWhile ?P s)" using ne by (rule last_appendR)
  finally show "last (lstrip_chars cs s) = last s" by (simp add: lstrip_chars_def)
  from ne show "hd (lstrip_chars cs s) \<notin> set cs"
    using hd_dropWhile[of ?P s] by (simp add: lstrip_chars_def)
qed

lemma strip_chars_no_outer:
  "strip_chars cs s = [] \<or> (hd (strip_chars cs s) \<notin> set cs \<and> last (strip_chars cs s) \<notin> set cs)"
proof (cases "rstrip_chars cs s = []")
  case True
  then show ?thesis by (simp add: strip_chars_def lstrip_chars_def)
next
  case False
  with rstrip_chars_last[of cs s] have l: "last (rstrip_chars cs s) \<notin> set cs" by simp
  from lstrip_chars_keeps_end[OF False l] l show ?thesis by (simp add: strip_chars_def)
qed

lemma py_strip_no_outer: "no_outer_whitespace (py_strip s)"
  using strip_chars_no_outer[of whitespace s] by (simp add: no_outer_whitespace_def py_strip_def)

lemma fence_tests: "(startswith s ''```'' \<and> endswith s ''```'') = starts_and_ends_with_fence s"
  by (simp add: starts_and_ends_with_fence_def fence_def startswith_prefix endswith_suffix)

lemma tag_tests:
  "has_tag_line s =
     (\<exists>i. find_char CHR 0x0A s = Some i \<and> lower (py_strip (take i s)) \<in> set language_tags)"
proof
  assume h: "has_tag_line s"
  then have "find_char CHR 0x0A s \<noteq> None" by (simp add: has_tag_line_def find_char_None)
  then obtain i where i: "find_char CHR 0x0A s = Some i" by blast
  from find_char_first_line[OF i] have "take i s = first_line s" by (simp add: first_line_def)
  with h i show "\<exists>i. find_char CHR 0x0A s = Some i
      \<and> lower (py_strip (take i s)) \<in> set language_tags"
    by (simp add: has_tag_line_def)
next
  assume "\<exists>i. find_char CHR 0x0A s = Some i \<and> lower (py_strip (take i s)) \<in> set language_tags"
  then obtain i where i: "find_char CHR 0x0A s = Some i"
    and t: "lower (py_strip (take i s)) \<in> set language_tags" by blast
  from i have "find_char CHR 0x0A s \<noteq> None" by simp
  then have n: "CHR 0x0A \<in> set s" by (simp add: find_char_None)
  from find_char_first_line[OF i] have "take i s = first_line s" by (simp add: first_line_def)
  with t n show "has_tag_line s" by (simp add: has_tag_line_def)
qed

lemma strip_fence_pair_keep:
  assumes "\<not> starts_and_ends_with_fence s"
  shows "strip_fence_pair s = s"
proof -
  from assms have "(startswith s ''```'' \<and> endswith s ''```'') = False"
    by (simp only: fence_tests)
  then show ?thesis unfolding strip_fence_pair_def by (simp only: if_False)
qed

lemma strip_fence_pair_drop:
  assumes "starts_and_ends_with_fence s"
  shows "strip_fence_pair s = py_strip (slice_3_minus3 s)"
    and "length (strip_fence_pair s) < length s"
proof -
  from assms fence_tests[of s] have t: "startswith s ''```'' \<and> endswith s ''```''" by simp
  then show e: "strip_fence_pair s = py_strip (slice_3_minus3 s)"
    by (simp add: strip_fence_pair_def)
  have "length (py_strip (slice_3_minus3 s)) \<le> length (slice_3_minus3 s)"
    unfolding py_strip_def by (rule length_strip_le)
  moreover have "length (slice_3_minus3 s) \<le> length s - 3 - 3" by (simp add: slice_3_minus3_def)
  moreover from t have "3 \<le> length s" by (simp add: endswith_def)
  ultimately show "length (strip_fence_pair s) < length s" unfolding e by arith
qed

lemma strip_language_tag_keep: "\<not> has_tag_line s \<Longrightarrow> strip_language_tag s = s"
  unfolding tag_tests by (auto simp: strip_language_tag_def split: option.splits)

lemma strip_language_tag_drop:
  assumes "has_tag_line s"
  obtains i where "find_char CHR 0x0A s = Some i"
    and "lower (py_strip (take i s)) \<in> set language_tags"
    and "strip_language_tag s = py_lstrip (drop (Suc i) s)"
    and "length (strip_language_tag s) < length s"
proof -
  from assms obtain i where i: "find_char CHR 0x0A s = Some i"
    and t: "lower (py_strip (take i s)) \<in> set language_tags"
    unfolding tag_tests by blast
  from i t have e: "strip_language_tag s = py_lstrip (drop (Suc i) s)"
    by (simp add: strip_language_tag_def)
  have "length (py_lstrip (drop (Suc i) s)) \<le> length (drop (Suc i) s)"
    unfolding py_lstrip_def by (rule length_strip_le)
  moreover have "i < length s" using i by (rule find_char_less)
  ultimately have "length (strip_language_tag s) < length s" unfolding e by simp
  with i t e show thesis by (rule that)
qed

lemma stage_lengths:
  "length (strip_fence_pair s) \<le> length s" "length (strip_language_tag s) \<le> length s"
proof -
  show "length (strip_fence_pair s) \<le> length s"
  proof (cases "starts_and_ends_with_fence s")
    case True
    from strip_fence_pair_drop(2)[OF True] show ?thesis by simp
  next
    case False
    then show ?thesis by (simp add: strip_fence_pair_keep)
  qed
  show "length (strip_language_tag s) \<le> length s"
  proof (cases "has_tag_line s")
    case True
    then obtain i :: nat where "length (strip_language_tag s) < length s"
      by (rule strip_language_tag_drop)
    then show ?thesis by simp
  next
    case False
    then show ?thesis by (simp add: strip_language_tag_keep)
  qed
qed

lemma strip_fixed_iff_clean: "(strip_code_fences x = x) = clean x"
proof
  assume c: "clean x"
  then have "py_strip x = x" by (simp add: clean_def py_strip_fixed_iff)
  moreover from c have "strip_fence_pair x = x" by (simp add: clean_def strip_fence_pair_keep)
  moreover from c have "strip_language_tag x = x"
    by (simp add: clean_def strip_language_tag_keep)
  ultimately show "strip_code_fences x = x" by (simp add: strip_code_fences_def)
next
  assume fp: "strip_code_fences x = x"
  let ?a = "py_strip x"
  let ?b = "strip_fence_pair ?a"
  have 1: "length ?a \<le> length x" unfolding py_strip_def by (rule length_strip_le)
  have 2: "length ?b \<le> length ?a" by (rule stage_lengths)
  have 3: "length (strip_language_tag ?b) \<le> length ?b" by (rule stage_lengths)
  from fp have 4: "length (strip_language_tag ?b) = length x"
    by (simp add: strip_code_fences_def)
  from 1 2 3 4 have eq: "length ?a = length x" "length ?b = length ?a"
    "length (strip_language_tag ?b) = length ?b" by simp_all
  from eq(1) have a: "?a = x" unfolding py_strip_def by (rule strip_chars_same_length)
  from eq(2) strip_fence_pair_drop(2)[of ?a] have nf: "\<not> starts_and_ends_with_fence ?a"
    by auto
  then have b: "?b = ?a" by (rule strip_fence_pair_keep)
  have nt: "\<not> has_tag_line ?b"
  proof
    assume "has_tag_line ?b"
    then obtain i :: nat where "length (strip_language_tag ?b) < length ?b"
      by (rule strip_language_tag_drop)
    with eq(3) show False by simp
  qed
  from a have "no_outer_whitespace x" by (simp add: py_strip_fixed_iff)
  with a b nf nt show "clean x" by (simp add: clean_def)
qed

lemma fence_stage_decomp:
  assumes "\<not> (starts_and_ends_with_fence a \<and> length a < 6)"
  shows "\<exists>f w2 w4. a = f @ w2 @ strip_fence_pair a @ w4 @ f \<and> all_whitespace w2
           \<and> all_whitespace w4 \<and> (f = fence \<or> (f = [] \<and> w2 = [] \<and> w4 = []))"
proof (cases "starts_and_ends_with_fence a")
  case False
  then have "strip_fence_pair a = a" by (rule strip_fence_pair_keep)
  then have "a = [] @ [] @ strip_fence_pair a @ [] @ []" by simp
  moreover have "all_whitespace []" by (simp add: all_whitespace_def)
  ultimately show ?thesis by blast
next
  case True
  define m where "m = slice_3_minus3 a"
  define r where "r = strip_fence_pair a"
  from True assms have len: "2 * length fence \<le> length a" by (simp add: fence_def)
  from True fence_tests[of a] have "startswith a fence" "endswith a fence"
    by (simp_all add: fence_def)
  note fs = fence_split[OF this len]
  have lf: "length fence = 3" by (simp add: fence_def)
  from fs have a: "a = fence @ m @ fence" by (simp only: lf m_def slice_3_minus3_def)
  from strip_fence_pair_drop(1)[OF True] have r: "r = py_strip m" by (simp add: r_def m_def)
  obtain w2 w4 where m: "m = w2 @ r @ w4"
    and w: "all_whitespace w2" "all_whitespace w4"
    using strip_chars_decomp[of m whitespace] unfolding py_strip_def r all_whitespace_def
    by blast
  from a m have "a = fence @ (w2 @ r @ w4) @ fence" by simp
  then have "a = fence @ w2 @ r @ w4 @ fence" by (simp only: append_assoc)
  with w show ?thesis unfolding r_def by blast
qed

lemma tag_stage_decomp:
  "\<exists>t w3. b = t @ w3 @ strip_language_tag b \<and> all_whitespace w3
            \<and> (is_tag_line t \<or> (t = [] \<and> w3 = []))"
proof (cases "has_tag_line b")
  case False
  then have "strip_language_tag b = b" by (rule strip_language_tag_keep)
  then have "b = [] @ [] @ strip_language_tag b" by simp
  moreover have "all_whitespace []" by (simp add: all_whitespace_def)
  ultimately show ?thesis by blast
next
  case True
  then obtain i where i: "find_char CHR 0x0A b = Some i"
    and t: "lower (py_strip (take i b)) \<in> set language_tags"
    and e: "strip_language_tag b = py_lstrip (drop (Suc i) b)"
    by (rule strip_language_tag_drop)
  define line where "line = take i b"
  define rest where "rest = drop (Suc i) b"
  define r where "r = strip_language_tag b"
  from find_char_append[OF i] have sp: "b = (line @ [CHR 0x0A]) @ rest"
    by (simp only: line_def rest_def)
  from find_char_not_before[OF i] have nn: "CHR 0x0A \<notin> set line" unfolding line_def .
  from e have r: "r = py_lstrip rest" by (simp add: r_def rest_def)
  obtain w3 where w3: "rest = w3 @ r" "all_whitespace w3"
    using lstrip_chars_decomp[of rest whitespace] unfolding py_lstrip_def r all_whitespace_def
    by blast
  have tl: "is_tag_line (line @ [CHR 0x0A])" using t nn by (simp add: is_tag_line_def line_def)
  from sp w3(1) have "b = (line @ [CHR 0x0A]) @ w3 @ r" by simp
  with tl w3(2) show ?thesis unfolding r_def by blast
qed

lemma short_fence_empty:
  assumes "starts_and_ends_with_fence a" "length a < 6"
  shows "strip_language_tag (strip_fence_pair a) = []"
proof -
  from assms(2) have "slice_3_minus3 a = []" by (simp add: slice_3_minus3_def)
  with strip_fence_pair_drop(1)[OF assms(1)] have "strip_fence_pair a = []"
    by (simp add: py_strip_def strip_chars_def lstrip_chars_def rstrip_chars_def)
  then show ?thesis by (simp add: strip_language_tag_def)
qed

lemma one_pass_decomp:
  "(\<exists>w1 k w5. x = w1 @ k @ w5 \<and> all_whitespace w1 \<and> all_whitespace w5
       \<and> starts_and_ends_with_fence k \<and> length k < 6 \<and> strip_code_fences x = [])
   \<or> (\<exists>w1 f w2 t w3 w4 w5.
         x = w1 @ f @ w2 @ t @ w3 @ strip_code_fences x @ w4 @ f @ w5
       \<and> all_whitespace w1 \<and> all_whitespace w2 \<and> all_whitespace w3 \<and> all_whitespace w4
       \<and> all_whitespace w5
       \<and> (f = fence \<or> (f = [] \<and> w2 = [] \<and> w4 = []))
       \<and> (is_tag_line t \<or> (t = [] \<and> w3 = [])))"
proof -
  define a where "a = py_strip x"
  define b where "b = strip_fence_pair a"
  define r where "r = strip_code_fences x"
  have rb: "r = strip_language_tag b" by (simp add: r_def b_def a_def strip_code_fences_def)
  obtain w1 w5 where x: "x = w1 @ a @ w5" and w15: "all_whitespace w1" "all_whitespace w5"
    using strip_chars_decomp[of x whitespace] unfolding py_strip_def a_def all_whitespace_def
    by blast
  show ?thesis
  proof (cases "starts_and_ends_with_fence a \<and> length a < 6")
    case True
    then have "r = []" unfolding rb b_def by (simp add: short_fence_empty)
    with x w15 True have "x = w1 @ a @ w5 \<and> all_whitespace w1 \<and> all_whitespace w5
       \<and> starts_and_ends_with_fence a \<and> length a < 6 \<and> strip_code_fences x = []"
      by (simp add: r_def)
    then show ?thesis by (intro disjI1 exI)
  next
    case False
    from fence_stage_decomp[OF False] obtain f w2 w4 where
      a: "a = f @ w2 @ b @ w4 @ f" and w24: "all_whitespace w2" "all_whitespace w4"
      and f: "f = fence \<or> (f = [] \<and> w2 = [] \<and> w4 = [])" unfolding b_def by blast
    from tag_stage_decomp[of b] obtain t w3 where
      b: "b = t @ w3 @ r" and w3: "all_whitespace w3"
      and t: "is_tag_line t \<or> (t = [] \<and> w3 = [])" unfolding rb by blast
    from x a b have "x = w1 @ (f @ w2 @ (t @ w3 @ r) @ w4 @ f) @ w5" by simp
    then have "x = w1 @ f @ w2 @ t @ w3 @ r @ w4 @ f @ w5" by (simp only: append_assoc)
    with w15 w24 w3 f t
    have "x = w1 @ f @ w2 @ t @ w3 @ strip_code_fences x @ w4 @ f @ w5
       \<and> all_whitespace w1 \<and> all_whitespace w2 \<and> all_whitespace w3 \<and> all_whitespace w4
       \<and> all_whitespace w5
       \<and> (f = fence \<or> (f = [] \<and> w2 = [] \<and> w4 = []))
       \<and> (is_tag_line t \<or> (t = [] \<and> w3 = []))"
      by (simp add: r_def)
    then show ?thesis by (intro disjI2 exI)
  qed
qed

lemma strip_language_tag_no_outer:
  assumes "no_outer_whitespace b"
  shows "no_outer_whitespace (strip_language_tag b)"
proof (cases "has_tag_line b")
  case False
  with assms show ?thesis by (simp add: strip_language_tag_keep)
next
  case True
  then obtain i where i: "find_char CHR 0x0A b = Some i"
    and e: "strip_language_tag b = py_lstrip (drop (Suc i) b)"
    by (rule strip_language_tag_drop)
  define line where "line = take i b"
  define rest where "rest = drop (Suc i) b"
  from find_char_append[OF i] have sp: "b = (line @ [CHR 0x0A]) @ rest"
    by (simp only: line_def rest_def)
  then have bne: "b \<noteq> []" by simp
  with assms have lb: "last b \<notin> set whitespace" by (simp add: no_outer_whitespace_def)
  have nl: "CHR 0x0A \<in> set whitespace" by (simp add: whitespace_def)
  have rne: "rest \<noteq> []"
  proof
    assume "rest = []"
    with sp have "last b = CHR 0x0A" by simp
    with lb nl show False by simp
  qed
  from sp rne have "last b = last rest" by simp
  with lb have lr: "last rest \<notin> set whitespace" by simp
  from lstrip_chars_keeps_end[OF rne lr] lr show ?thesis
    unfolding e py_lstrip_def no_outer_whitespace_def rest_def[symmetric] by simp
qed

lemma strip_code_fences_no_outer: "no_outer_whitespace (strip_code_fences x)"
proof -
  have "no_outer_whitespace (strip_fence_pair (py_strip x))"
  proof (cases "starts_and_ends_with_fence (py_strip x)")
    case True
    from strip_fence_pair_drop(1)[OF True] show ?thesis by (simp add: py_strip_no_outer)
  next
    case False
    then show ?thesis by (simp add: strip_fence_pair_keep py_strip_no_outer)
  qed
  then show ?thesis unfolding strip_code_fences_def by (rule strip_language_tag_no_outer)
qed

text \<open>
  Claim C7, as amended. One pass of fence stripping takes away no more than this: at the
  front whitespace, then an opening fence with the whitespace after it, then one tag
  line with the whitespace after it; at the back a closing fence with the whitespace
  before it, then whitespace. The two fences go together or not at all; only a text
  that is, apart from outer whitespace, three to five backticks, where the two fences
  overlap, becomes empty instead. What is left has no outer whitespace. The pass leaves
  a text unchanged exactly when the text is clean, so a second pass gives the same as
  the first exactly when the first pass left clean text.
\<close>

theorem strip_code_fences_one_pass:
  "(strip_code_fences x = x) = clean x
   \<and> (strip_code_fences (strip_code_fences x) = strip_code_fences x)
       = clean (strip_code_fences x)
   \<and> no_outer_whitespace (strip_code_fences x)
   \<and> ((\<exists>w1 k w5. x = w1 @ k @ w5 \<and> all_whitespace w1 \<and> all_whitespace w5
          \<and> starts_and_ends_with_fence k \<and> length k < 6 \<and> strip_code_fences x = [])
      \<or> (\<exists>w1 f w2 t w3 w4 w5.
            x = w1 @ f @ w2 @ t @ w3 @ strip_code_fences x @ w4 @ f @ w5
          \<and> all_whitespace w1 \<and> all_whitespace w2 \<and> all_whitespace w3 \<and> all_whitespace w4
          \<and> all_whitespace w5
          \<and> (f = fence \<or> (f = [] \<and> w2 = [] \<and> w4 = []))
          \<and> (is_tag_line t \<or> (t = [] \<and> w3 = []))))"
proof (intro conjI)
  show "(strip_code_fences x = x) = clean x" by (rule strip_fixed_iff_clean)
  show "(strip_code_fences (strip_code_fences x) = strip_code_fences x)
       = clean (strip_code_fences x)" by (rule strip_fixed_iff_clean)
  show "no_outer_whitespace (strip_code_fences x)" by (rule strip_code_fences_no_outer)
  show "(\<exists>w1 k w5. x = w1 @ k @ w5 \<and> all_whitespace w1 \<and> all_whitespace w5
          \<and> starts_and_ends_with_fence k \<and> length k < 6 \<and> strip_code_fences x = [])
      \<or> (\<exists>w1 f w2 t w3 w4 w5.
            x = w1 @ f @ w2 @ t @ w3 @ strip_code_fences x @ w4 @ f @ w5
          \<and> all_whitespace w1 \<and> all_whitespace w2 \<and> all_whitespace w3 \<and> all_whitespace w4
          \<and> all_whitespace w5
          \<and> (f = fence \<or> (f = [] \<and> w2 = [] \<and> w4 = []))
          \<and> (is_tag_line t \<or> (t = [] \<and> w3 = [])))" by (rule one_pass_decomp)
qed

theorem strip_code_fences_one_pass_witness:
  "clean ''print(1)'' \<and> strip_code_fences ''print(1)'' = ''print(1)''
   \<and> strip_code_fences ''```python\<newline>print(1)\<newline>```'' = ''print(1)''
   \<and> strip_code_fences (strip_code_fences ''```python\<newline>print(1)\<newline>```'')
       = strip_code_fences ''```python\<newline>print(1)\<newline>```''
   \<and> clean ''python'' \<and> strip_code_fences ''python'' = ''python''
   \<and> \<not> clean ''````'' \<and> strip_code_fences ''````'' = []"
proof -
  have c: "clean ''print(1)''" by code_simp
  have p: "clean ''python''" by code_simp
  have q: "\<not> clean ''````''" by code_simp
  have s: "strip_code_fences ''```python\<newline>print(1)\<newline>```'' = ''print(1)''" by code_simp
  have e: "strip_code_fences ''````'' = []" by code_simp
  from c strip_code_fences_one_pass[of "''print(1)''"]
  have 1: "strip_code_fences ''print(1)'' = ''print(1)''" by blast
  from p strip_code_fences_one_pass[of "''python''"]
  have 2: "strip_code_fences ''python'' = ''python''" by blast
  from c p q s e 1 2 show ?thesis by simp
qed

text \<open>
  Claim C7 as stated fails: a text with two tag lines, or with two nested fence pairs,
  changes again in a second pass.
\<close>

theorem strip_code_fences_not_idempotent:
  "strip_code_fences ''c\<newline>c\<newline>d'' = ''c\<newline>d''
   \<and> strip_code_fences (strip_code_fences ''c\<newline>c\<newline>d'') = ''d''
   \<and> strip_code_fences (strip_code_fences ''c\<newline>c\<newline>d'') \<noteq> strip_code_fences ''c\<newline>c\<newline>d''"
  by code_simp


section \<open>Auth resolution: properties\<close>

lemma truthy_Some: "truthy (Some s) = (s \<noteq> [])"
  by (simp add: truthy_def)

lemma truthy_None: "truthy None = False"
  by (simp add: truthy_def)

lemma str_val_Some: "str_val (Some s) = s"
  by (simp add: str_val_def)

text \<open>
  Claim C1. When the base URL (non-empty once its trailing slashes are trimmed, which is
  the value the clients test), the Keycloak client id and the client secret are all set,
  and the token endpoint answers the one request with status 200 and a non-empty
  \<open>access_token\<close> \<open>t\<close>, then auth resolution in code-translation, in the LLM client of
  pdf-podcast and in rag-chatbot ends in mode \<open>keycloak\<close> with \<open>t\<close> as the credential (the
  key of the client that is built), and the trace holds the token request and the success
  logs only: the static key is not tested and the open tier is not reached.
\<close>

theorem keycloak_tier_wins:
  assumes b: "BASE_URL cfg = Some b" "rstrip_chars ''/'' b \<noteq> []"
    and ks: "truthy (KEYCLOAK_CLIENT_ID cfg)" "truthy (KEYCLOAK_CLIENT_SECRET cfg)"
    and t: "t \<noteq> []"
    and post: "post (rstrip_chars ''/'' b @ ''/token'') (keycloak_payload cfg)
                = Response 200 (Json (Some t))"
  shows "ct_new cfg post =
           ([Log INFO ''Authenticating with Keycloak at %s'',
             Post (rstrip_chars ''/'' b @ ''/token'') (keycloak_payload cfg),
             Log INFO ''Keycloak authentication successful''],
            \<lparr>base_url = Some b, api_key = INFERENCE_API_KEY cfg, auth_mode = ''keycloak'',
             token = Some t\<rparr>)
       \<and> (\<exists>cl. ct_get_openai_client cfg (snd (ct_new cfg post)) = Inr cl \<and> client_api_key cl = t)
       \<and> llm_new cfg post =
           ([Post (rstrip_chars ''/'' b @ ''/token'') (keycloak_payload cfg),
             Log INFO ''LLMClient: using Keycloak access token for local gateway'',
             Log INFO (''LLMClient: configured local OpenAI-compatible client ''
                        @ ''at %s/v1 (auth_mode=%s)'')],
            \<lparr>base_url = Some (rstrip_chars ''/'' b), api_key = Some t, auth_mode = ''keycloak'',
             client = Some \<lparr>client_api_key = t,
                            client_base_url = rstrip_chars ''/'' b @ ''/v1''\<rparr>\<rparr>)
       \<and> (\<forall>self. base_url self = Some (rstrip_chars ''/'' b) \<longrightarrow>
            rag_configure_auth cfg post self =
              ([Log INFO ''Requesting Keycloak token'',
                Post (rstrip_chars ''/'' b @ ''/token'') (keycloak_payload cfg),
                Log INFO ''Gateway auth configured with Keycloak token''],
               Inr (self\<lparr>api_key := Some t, auth_mode := ''keycloak''\<rparr>)))"
proof -
  from b have nb: "b \<noteq> []" by (auto simp: rstrip_chars_def)
  have ct: "ct_new cfg post =
           ([Log INFO ''Authenticating with Keycloak at %s'',
             Post (rstrip_chars ''/'' b @ ''/token'') (keycloak_payload cfg),
             Log INFO ''Keycloak authentication successful''],
            \<lparr>base_url = Some b, api_key = INFERENCE_API_KEY cfg, auth_mode = ''keycloak'',
             token = Some t\<rparr>)"
    using b nb ks t post
    by (simp add: ct_new_def ct_init_auth_def truthy_Some str_val_Some Let_def)
  have key: "\<exists>cl. ct_get_openai_client cfg (snd (ct_new cfg post)) = Inr cl \<and> client_api_key cl = t"
    using nb t by (simp add: ct ct_get_openai_client_def truthy_Some str_val_Some Let_def)
  have llm: "llm_new cfg post =
           ([Post (rstrip_chars ''/'' b @ ''/token'') (keycloak_payload cfg),
             Log INFO ''LLMClient: using Keycloak access token for local gateway'',
             Log INFO (''LLMClient: configured local OpenAI-compatible client ''
                        @ ''at %s/v1 (auth_mode=%s)'')],
            \<lparr>base_url = Some (rstrip_chars ''/'' b), api_key = Some t, auth_mode = ''keycloak'',
             client = Some \<lparr>client_api_key = t,
                            client_base_url = rstrip_chars ''/'' b @ ''/v1''\<rparr>\<rparr>)"
    using b nb ks t post
    by (simp add: llm_new_def llm_try_keycloak_token_def truthy_Some str_val_Some Let_def)
  have rag: "rag_configure_auth cfg post self =
              ([Log INFO ''Requesting Keycloak token'',
                Post (rstrip_chars ''/'' b @ ''/token'') (keycloak_payload cfg),
                Log INFO ''Gateway auth configured with Keycloak token''],
               Inr (self\<lparr>api_key := Some t, auth_mode := ''keycloak''\<rparr>))"
    if "base_url self = Some (rstrip_chars ''/'' b)" for self
    using that ks t post
    by (simp add: rag_configure_auth_def rag_try_keycloak_token_def truthy_Some str_val_Some
        Let_def)
  from ct key llm rag show ?thesis by blast
qed

theorem keycloak_tier_wins_witness:
  "ct_new full_cfg (\<lambda>url p. Response 200 (Json (Some ''tok''))) =
     ([Log INFO ''Authenticating with Keycloak at %s'',
       Post ''http://gw/token'' (keycloak_payload full_cfg),
       Log INFO ''Keycloak authentication successful''],
      \<lparr>base_url = Some ''http://gw'', api_key = Some ''sk-1'', auth_mode = ''keycloak'',
       token = Some ''tok''\<rparr>)
   \<and> llm_new full_cfg (\<lambda>url p. Response 200 (Json (Some ''tok''))) =
     ([Post ''http://gw/token'' (keycloak_payload full_cfg),
       Log INFO ''LLMClient: using Keycloak access token for local gateway'',
       Log INFO (''LLMClient: configured local OpenAI-compatible client ''
                  @ ''at %s/v1 (auth_mode=%s)'')],
      \<lparr>base_url = Some ''http://gw'', api_key = Some ''tok'', auth_mode = ''keycloak'',
       client = Some \<lparr>client_api_key = ''tok'', client_base_url = ''http://gw/v1''\<rparr>\<rparr>)"
proof -
  have r: "rstrip_chars ''/'' ''http://gw'' = ''http://gw''" by code_simp
  have k: "truthy (KEYCLOAK_CLIENT_ID full_cfg)" "truthy (KEYCLOAK_CLIENT_SECRET full_cfg)"
    by (simp_all add: full_cfg_def truthy_def)
  have b: "BASE_URL full_cfg = Some ''http://gw''" "INFERENCE_API_KEY full_cfg = Some ''sk-1''"
    by (simp_all add: full_cfg_def)
  from keycloak_tier_wins[of full_cfg "''http://gw''" "''tok''"
      "\<lambda>url p. Response 200 (Json (Some ''tok''))"] r k b
  show ?thesis by simp
qed

text \<open>
  In code-translation the stored credential is non-empty in both authenticated modes,
  whatever the token endpoint answers.
\<close>

lemma ct_credential_nonempty:
  "(auth_mode (snd (ct_new cfg post)) = ''keycloak'' \<longrightarrow> truthy (token (snd (ct_new cfg post))))
   \<and> (auth_mode (snd (ct_new cfg post)) = ''api_key'' \<longrightarrow> truthy (api_key (snd (ct_new cfg post))))"
  by (simp add: ct_new_def ct_init_auth_def static_key_or_open_def Let_def
      split: http_result.splits body.splits)

text \<open>
  Claim C2 fails on doc-summarization. With every value configured and a token response
  of status 200 whose JSON body has no \<open>access_token\<close>, \<open>_init_auth\<close> ends in mode
  \<open>keycloak\<close> with no token; \<open>is_authenticated\<close> then holds, and the client that is built
  carries the key \<open>no-auth\<close> although a static key is configured.
\<close>

theorem ds_keycloak_mode_without_token:
  "ds_new full_cfg (\<lambda>url p. Response 200 (Json None)) =
     ([Log INFO ''Authenticating with Keycloak at %s'',
       Post ''http://gw/token'' (keycloak_payload full_cfg),
       Log INFO ''Keycloak authentication successful''],
      \<lparr>base_url = Some ''http://gw'', api_key = Some ''sk-1'', auth_mode = ''keycloak'',
       token = None\<rparr>)
   \<and> ds_is_authenticated (snd (ds_new full_cfg (\<lambda>url p. Response 200 (Json None))))
   \<and> ds_get_inference_client full_cfg (snd (ds_new full_cfg (\<lambda>url p. Response 200 (Json None))))
       = Inr \<lparr>client_api_key = ''no-auth'',
               client_base_url = ''http://gw/v1/chat/completions/v1''\<rparr>"
  by (simp add: ds_new_def ds_init_auth_def full_cfg_def truthy_def str_val_def Let_def
      ds_is_authenticated_def ds_get_inference_client_def)

text \<open>
  In code-translation a missing or empty base URL, client id or client secret means no
  token request: the resolution starts at the test of the static key.
\<close>

lemma ct_partial_keycloak_no_request:
  assumes "\<not> (truthy (BASE_URL cfg) \<and> truthy (KEYCLOAK_CLIENT_ID cfg)
              \<and> truthy (KEYCLOAK_CLIENT_SECRET cfg))"
  shows "ct_new cfg post =
           static_key_or_open []
             \<lparr>base_url = BASE_URL cfg, api_key = INFERENCE_API_KEY cfg, auth_mode = ''open'',
              token = None\<rparr>"
    and "filter is_post (fst (ct_new cfg post)) = []"
    and "hd (fst (ct_new cfg post)) = TestStaticKey"
  using assms by (auto simp: ct_new_def ct_init_auth_def static_key_or_open_def)

text \<open>In rag-chatbot the same holds for a missing client id or client secret.\<close>

lemma rag_missing_credentials_no_request:
  assumes "\<not> (truthy (KEYCLOAK_CLIENT_ID cfg) \<and> truthy (KEYCLOAK_CLIENT_SECRET cfg))"
  shows "rag_try_keycloak_token cfg post self = ([], None)"
    and "filter is_post (fst (rag_configure_auth cfg post self)) = []"
  using assms by (auto simp: rag_try_keycloak_token_def rag_configure_auth_def truthy_def)

text \<open>
  Claim C3 fails on rag-chatbot. With an empty base URL and the client id and secret
  set, \<open>_try_keycloak_token\<close> still calls \<open>requests.post\<close>, on the URL \<open>/token\<close>; the call
  raises, the error is logged, and only then is the static key tested.
\<close>

theorem rag_requests_token_without_base_url:
  "rag_new (full_cfg\<lparr>BASE_URL := Some []\<rparr>)
      (\<lambda>url p. Raised (RequestException ''MissingSchema''))
    = ([Log INFO ''HTTP client initialized for gateway'',
        Log INFO ''Requesting Keycloak token'',
        Post ''/token'' (keycloak_payload full_cfg),
        Log ERROR ''Keycloak auth error: %s'',
        TestStaticKey,
        Log INFO ''Gateway auth configured with static INFERENCE_API_KEY''],
       Inr \<lparr>base_url = Some [], api_key = Some ''sk-1'', auth_mode = ''inference_api_key'',
            embeddings_base_url = ''http://emb''\<rparr>)"
  by (simp add: rag_new_def rag_configure_auth_def rag_try_keycloak_token_def full_cfg_def
      truthy_def str_val_def Let_def rstrip_chars_def keycloak_payload_def)

text \<open>
  Claim C4, as amended. Let the static key be unset or empty, and let the Keycloak tier
  give no token: a prerequisite is missing, or the token endpoint does not grant one.
  Then in code-translation the resolution ends in mode \<open>open\<close>, and \<open>_get_openai_client\<close>
  builds a client whose key is \<open>no-auth\<close> when the base URL is set and raises
  \<open>ValueError\<close> when it is not; in rag-chatbot \<open>_configure_auth\<close> raises \<open>ValueError\<close>.
\<close>

theorem open_mode_fallback:
  assumes nokey: "\<not> truthy (INFERENCE_API_KEY cfg)"
  shows "(\<not> (truthy (BASE_URL cfg) \<and> truthy (KEYCLOAK_CLIENT_ID cfg)
              \<and> truthy (KEYCLOAK_CLIENT_SECRET cfg))
          \<or> \<not> grants_token (post (rstrip_chars ''/'' (str_val (BASE_URL cfg)) @ ''/token'')
                                (keycloak_payload cfg))
          \<longrightarrow> auth_mode (snd (ct_new cfg post)) = ''open''
              \<and> ct_get_openai_client cfg (snd (ct_new cfg post)) =
                  (if truthy (BASE_URL cfg)
                   then Inr \<lparr>client_api_key = ''no-auth'',
                     client_base_url =
                       (if strip_chars ''/'' (INFERENCE_MODEL_ENDPOINT cfg) \<noteq> []
                        then rstrip_chars ''/'' (str_val (BASE_URL cfg)) @ ''/''
                               @ strip_chars ''/'' (INFERENCE_MODEL_ENDPOINT cfg)
                        else rstrip_chars ''/'' (str_val (BASE_URL cfg)))\<rparr>
                   else Inl (ValueError ''BASE_URL is not configured in config.py'')))
       \<and> (\<not> (truthy (KEYCLOAK_CLIENT_ID cfg) \<and> truthy (KEYCLOAK_CLIENT_SECRET cfg))
          \<or> \<not> grants_token (post (str_val (base_url self) @ ''/token'') (keycloak_payload cfg))
          \<longrightarrow> snd (rag_configure_auth cfg post self) =
                Inl (ValueError (''No gateway auth. Set KEYCLOAK_CLIENT_ID and ''
                       @ ''KEYCLOAK_CLIENT_SECRET or INFERENCE_API_KEY.'')))"
proof -
  have ct_mode: "auth_mode (snd (ct_new cfg post)) = ''open''"
    if "\<not> (truthy (BASE_URL cfg) \<and> truthy (KEYCLOAK_CLIENT_ID cfg)
              \<and> truthy (KEYCLOAK_CLIENT_SECRET cfg))
          \<or> \<not> grants_token (post (rstrip_chars ''/'' (str_val (BASE_URL cfg)) @ ''/token'')
                                (keycloak_payload cfg))"
    using that nokey
    by (auto simp: ct_new_def ct_init_auth_def static_key_or_open_def grants_token_def Let_def
        split: http_result.splits body.splits)
  have ct_base: "base_url (snd (ct_new cfg post)) = BASE_URL cfg"
    by (simp add: ct_new_def ct_init_auth_def static_key_or_open_def Let_def
        split: http_result.splits body.splits)
  have ct_client: "ct_get_openai_client cfg c =
                  (if truthy (BASE_URL cfg)
                   then Inr \<lparr>client_api_key = ''no-auth'',
                     client_base_url =
                       (if strip_chars ''/'' (INFERENCE_MODEL_ENDPOINT cfg) \<noteq> []
                        then rstrip_chars ''/'' (str_val (BASE_URL cfg)) @ ''/''
                               @ strip_chars ''/'' (INFERENCE_MODEL_ENDPOINT cfg)
                        else rstrip_chars ''/'' (str_val (BASE_URL cfg)))\<rparr>
                   else Inl (ValueError ''BASE_URL is not configured in config.py''))"
    if "auth_mode c = ''open''" "base_url c = BASE_URL cfg" for c
    using that by (simp add: ct_get_openai_client_def Let_def)
  have rag: "snd (rag_configure_auth cfg post self) =
                Inl (ValueError (''No gateway auth. Set KEYCLOAK_CLIENT_ID and ''
                       @ ''KEYCLOAK_CLIENT_SECRET or INFERENCE_API_KEY.''))"
    if "\<not> (truthy (KEYCLOAK_CLIENT_ID cfg) \<and> truthy (KEYCLOAK_CLIENT_SECRET cfg))
          \<or> \<not> grants_token (post (str_val (base_url self) @ ''/token'') (keycloak_payload cfg))"
    using that nokey
    by (auto simp: rag_configure_auth_def rag_try_keycloak_token_def grants_token_def Let_def
        truthy_None split: http_result.splits body.splits)
  from ct_mode ct_client[OF _ ct_base] rag show ?thesis by blast
qed

theorem open_mode_fallback_witness:
  "\<not> truthy (INFERENCE_API_KEY no_auth_cfg)
   \<and> \<not> truthy (KEYCLOAK_CLIENT_SECRET no_auth_cfg)
   \<and> auth_mode (snd (ct_new no_auth_cfg (\<lambda>url p. Response 200 (Json (Some ''tok''))))) = ''open''
   \<and> ct_get_openai_client no_auth_cfg
        (snd (ct_new no_auth_cfg (\<lambda>url p. Response 200 (Json (Some ''tok''))))) =
       Inr \<lparr>client_api_key = ''no-auth'',
            client_base_url = ''http://gw/v1/chat/completions''\<rparr>"
proof -
  have k: "\<not> truthy (INFERENCE_API_KEY no_auth_cfg)"
    "\<not> truthy (KEYCLOAK_CLIENT_SECRET no_auth_cfg)" "truthy (BASE_URL no_auth_cfg)"
    by (simp_all add: no_auth_cfg_def truthy_def)
  have u: "rstrip_chars ''/'' (str_val (BASE_URL no_auth_cfg)) = ''http://gw''"
    "strip_chars ''/'' (INFERENCE_MODEL_ENDPOINT no_auth_cfg) = ''v1/chat/completions''"
    by (simp_all add: no_auth_cfg_def str_val_def strip_chars_def lstrip_chars_def
        rstrip_chars_def)
  from open_mode_fallback[OF k(1), of "\<lambda>url p. Response 200 (Json (Some ''tok''))"] k u
  show ?thesis by simp
qed

text \<open>
  Claim C4 as stated fails on rag-chatbot: with neither a client secret nor a static
  key, the constructor raises instead of entering an open mode.
\<close>

theorem rag_raises_without_auth:
  "rag_new no_auth_cfg (\<lambda>url p. Raised (RequestException ''unreachable'')) =
     ([Log INFO ''HTTP client initialized for gateway'', TestStaticKey],
      Inl (ValueError (''No gateway auth. Set KEYCLOAK_CLIENT_ID and ''
                       @ ''KEYCLOAK_CLIENT_SECRET or INFERENCE_API_KEY.'')))"
  by (simp add: rag_new_def rag_configure_auth_def rag_try_keycloak_token_def no_auth_cfg_def
      truthy_def)


section \<open>Generation calls: properties\<close>

text \<open>The token request is issued at most once by every resolver.\<close>

lemma ct_new_posts: "length (filter is_post (fst (ct_new cfg post))) \<le> 1"
  by (simp add: ct_new_def ct_init_auth_def static_key_or_open_def Let_def
      split: http_result.splits body.splits)

lemma ds_new_posts: "length (filter is_post (fst (ds_new cfg post))) \<le> 1"
  by (simp add: ds_new_def ds_init_auth_def static_key_or_open_def Let_def
      split: http_result.splits body.splits)

lemma llm_try_keycloak_token_posts:
  "length (filter is_post (fst (llm_try_keycloak_token cfg post self))) \<le> 1"
  by (simp add: llm_try_keycloak_token_def Let_def split: http_result.splits body.splits)

lemma rag_try_keycloak_token_posts:
  "length (filter is_post (fst (rag_try_keycloak_token cfg post self))) \<le> 1"
  by (simp add: rag_try_keycloak_token_def Let_def split: http_result.splits body.splits)

lemma rag_configure_auth_posts:
  "length (filter is_post (fst (rag_configure_auth cfg post self))) \<le> 1"
  using rag_try_keycloak_token_posts[of cfg post self]
  by (simp add: rag_configure_auth_def case_prod_beta)

lemma llm_new_posts: "length (filter is_post (fst (llm_new cfg post))) \<le> 1"
proof (cases "truthy (BASE_URL cfg)")
  case False
  then show ?thesis by (simp add: llm_new_def Let_def truthy_None)
next
  case base: True
  let ?b = "Some (rstrip_chars ''/'' (str_val (BASE_URL cfg)))"
  let ?s0 = "\<lparr>base_url = ?b, api_key = None, auth_mode = ''none'', client = None\<rparr>"
  note k = llm_try_keycloak_token_posts[of cfg post ?s0]
  show ?thesis
  proof (cases "truthy ?b")
    case False
    with base show ?thesis by (simp add: llm_new_def Let_def)
  next
    case trimmed: True
    show ?thesis
    proof (cases "truthy (KEYCLOAK_CLIENT_ID cfg) \<and> truthy (KEYCLOAK_CLIENT_SECRET cfg)")
      case creds: True
      show ?thesis
      proof (cases "truthy (snd (llm_try_keycloak_token cfg post ?s0))")
        case True
        with base trimmed creds k show ?thesis
          by (simp add: llm_new_def Let_def case_prod_beta)
      next
        case tok: False
        show ?thesis
        proof (cases "truthy (INFERENCE_API_KEY cfg)")
          case True
          with base trimmed creds tok k show ?thesis
            by (simp add: llm_new_def Let_def case_prod_beta truthy_None)
        next
          case False
          with base trimmed creds tok k show ?thesis
            by (simp add: llm_new_def Let_def case_prod_beta truthy_None)
        qed
      qed
    next
      case False
      then have creds: "(truthy (KEYCLOAK_CLIENT_ID cfg) \<and> truthy (KEYCLOAK_CLIENT_SECRET cfg))
                          = False"
        by simp
      show ?thesis
      proof (cases "truthy (INFERENCE_API_KEY cfg)")
        case True
        with base trimmed show ?thesis
          by (simp add: llm_new_def Let_def truthy_None creds)
      next
        case False
        with base trimmed show ?thesis
          by (simp add: llm_new_def Let_def truthy_None creds)
      qed
    qed
  qed
qed

lemma rag_new_posts: "length (filter is_post (fst (rag_new cfg post))) \<le> 1"
  by (simp add: rag_new_def case_prod_beta rag_configure_auth_posts[unfolded One_nat_def]
      split: option.splits)

text \<open>The three attempts of the retried call, written out.\<close>

lemma retry_call_3:
  "retry_call 3 w f (Suc 0) =
     (case f (Suc 0) of
        Inr v \<Rightarrow> (Suc 0, [], Inr v)
      | Inl e1 \<Rightarrow>
          (case f 2 of
             Inr v \<Rightarrow> (2, [w (Suc 0)], Inr v)
           | Inl e2 \<Rightarrow>
               (case f 3 of
                  Inr v \<Rightarrow> (3, [w (Suc 0), w 2], Inr v)
                | Inl e3 \<Rightarrow> (3, [w (Suc 0), w 2], Inl (RetryError e3)))))"
proof -
  have 3: "retry_call 3 w f 3 =
     (case f 3 of Inr v \<Rightarrow> (3, [], Inr v) | Inl e \<Rightarrow> (3, [], Inl (RetryError e)))"
    by (subst retry_call.simps) (simp split: sum.splits)
  have 2: "retry_call 3 w f 2 =
     (case f 2 of Inr v \<Rightarrow> (2, [], Inr v)
      | Inl e \<Rightarrow> (case retry_call 3 w f 3 of (n, sleeps, r) \<Rightarrow> (n, w 2 # sleeps, r)))"
    by (subst retry_call.simps) (simp add: eval_nat_numeral split: sum.splits)
  have 1: "retry_call 3 w f (Suc 0) =
     (case f (Suc 0) of Inr v \<Rightarrow> (Suc 0, [], Inr v)
      | Inl e \<Rightarrow> (case retry_call 3 w f 2 of (n, sleeps, r) \<Rightarrow> (n, w (Suc 0) # sleeps, r)))"
    by (subst retry_call.simps) (simp add: eval_nat_numeral split: sum.splits)
  show ?thesis by (simp add: 1 2 3 split: sum.splits)
qed

lemma wait_exponential_window:
  "4 \<le> wait_exponential 1 4 10 n \<and> wait_exponential 1 4 10 n \<le> 10"
  by (simp add: wait_exponential_def)

lemma wait_exponential_first: "wait_exponential 1 4 10 1 = 4" "wait_exponential 1 4 10 2 = 4"
  by (simp_all add: wait_exponential_def)

lemma llm_generate_unfold:
  "llm_generate_with_openai self create =
     (case llm_generate_attempt self (create 1) of
        Inr v \<Rightarrow> (1, [], Inr v)
      | Inl e1 \<Rightarrow>
          (case llm_generate_attempt self (create 2) of
             Inr v \<Rightarrow> (2, [4], Inr v)
           | Inl e2 \<Rightarrow>
               (case llm_generate_attempt self (create 3) of
                  Inr v \<Rightarrow> (3, [4, 4], Inr v)
                | Inl e3 \<Rightarrow> (3, [4, 4], Inl (RetryError e3)))))"
  by (simp add: llm_generate_with_openai_def retry_call_3 wait_exponential_def
      split: sum.splits)

text \<open>
  Claim C9 fails on the LLM client of pdf-podcast. For a response with an empty
  \<open>choices\<close> list, \<open>response.choices[0]\<close> raises \<open>IndexError\<close>; the attempt is retried
  twice, and \<open>RetryError\<close> reaches the caller instead of the empty string.
\<close>

theorem llm_raises_on_empty_choices:
  "llm_generate_with_openai ready_llm (\<lambda>k. Returns []) = (3, [4, 4], Inl (RetryError IndexError))"
  by (simp add: llm_generate_unfold llm_generate_attempt_def ready_llm_def)


text \<open>The retries below one call of the SDK, and the token request of the TTS client.\<close>

lemma tts_try_keycloak_token_posts:
  "length (filter is_post (fst (tts_try_keycloak_token cfg post base))) \<le> 1"
  by (simp add: tts_try_keycloak_token_def Let_def split: http_result.splits body.splits)

lemma tts_new_posts:
  "length (filter is_post (fst (tts_new cfg settings api_key_arg base_url_arg post))) \<le> 1"
proof (cases "truthy (py_or base_url_arg (TTS_BASE_URL settings))")
  case False
  then show ?thesis by (simp add: tts_new_def Let_def)
next
  case base: True
  define b where "b = py_or base_url_arg (TTS_BASE_URL settings)"
  define k where "k = py_or api_key_arg (TTS_API_KEY settings)"
  note p = tts_try_keycloak_token_posts[of cfg post "rstrip_chars ''/'' (str_val b)"]
  from base have tb: "truthy b" by (simp add: b_def)
  show ?thesis
  proof (cases "truthy (KEYCLOAK_CLIENT_ID cfg) \<and> truthy (KEYCLOAK_CLIENT_SECRET cfg)")
    case creds: True
    show ?thesis
    proof (cases "truthy (snd (tts_try_keycloak_token cfg post (rstrip_chars ''/'' (str_val b))))")
      case True
      with tb creds p show ?thesis
        unfolding tts_new_def b_def[symmetric] k_def[symmetric]
        by (simp add: Let_def case_prod_beta)
    next
      case tok: False
      show ?thesis
      proof (cases "truthy k")
        case True
        with tb creds tok p show ?thesis
          unfolding tts_new_def b_def[symmetric] k_def[symmetric]
          by (simp add: Let_def case_prod_beta truthy_None)
      next
        case False
        with tb creds tok p show ?thesis
          unfolding tts_new_def b_def[symmetric] k_def[symmetric]
          by (simp add: Let_def case_prod_beta truthy_None)
      qed
    qed
  next
    case False
    then have creds: "(truthy (KEYCLOAK_CLIENT_ID cfg) \<and> truthy (KEYCLOAK_CLIENT_SECRET cfg))
                          = False"
      by simp
    show ?thesis
    proof (cases "truthy k")
      case True
      with tb show ?thesis
        unfolding tts_new_def b_def[symmetric] k_def[symmetric]
        by (simp add: Let_def truthy_None creds)
    next
      case False
      with tb show ?thesis
        unfolding tts_new_def b_def[symmetric] k_def[symmetric]
        by (simp add: Let_def truthy_None creds)
    qed
  qed
qed

lemma sdk_create_retry:
  assumes "retryable (http n)" "r < m" "r' = Suc r" "n' = Suc n"
  shows "sdk_create m http r n = sdk_create m http r' n'"
  using assms by (subst sdk_create.simps) (simp add: retryable_def split: http_outcome.splits)

lemma sdk_create_stop:
  assumes "\<not> (retryable (http n) \<and> r < m)"
  shows "fst (sdk_create m http r n) = n"
  using assms by (subst sdk_create.simps) (auto simp: retryable_def split: http_outcome.splits)

lemma sdk_create_answered:
  "http n = Answered choices \<Longrightarrow> sdk_create m http r n = (n, Returns choices)"
  by (subst sdk_create.simps) simp

lemma sdk_create_refused:
  "http n = Refused st \<Longrightarrow> \<not> should_retry st
     \<Longrightarrow> sdk_create m http r n = (n, Fails (APIStatusError st))"
  by (subst sdk_create.simps) simp

lemma sdk_create_timed_out:
  "http n = TimedOut \<Longrightarrow> \<not> r < m \<Longrightarrow> sdk_create m http r n = (n, Fails APITimeoutError)"
  by (subst sdk_create.simps) simp

lemma sdk_create_bound:
  "n \<le> fst (sdk_create m http r n) \<and> fst (sdk_create m http r n) \<le> n + (m - r)"
proof (induction "m - r" arbitrary: r n)
  case 0
  then have "\<not> (retryable (http n) \<and> r < m)" by simp
  then show ?case by (simp add: sdk_create_stop)
next
  case (Suc d)
  show ?case
  proof (cases "retryable (http n) \<and> r < m")
    case False
    then show ?thesis by (simp add: sdk_create_stop)
  next
    case True
    then have e: "sdk_create m http r n = sdk_create m http (Suc r) (Suc n)"
      by (intro sdk_create_retry) simp_all
    from Suc.hyps(2) have "d = m - Suc r" by simp
    from Suc.hyps(1)[OF this, of "Suc n"] True show ?thesis unfolding e by arith
  qed
qed

lemma sdk_create_success:
  assumes "1 \<le> k" "k \<le> 3" "\<forall>j. 1 \<le> j \<and> j < k \<longrightarrow> retryable (http j)"
    "http k = Answered choices"
  shows "sdk_create 2 http 0 1 = (k, Returns choices)"
proof -
  from assms(1,2) consider "k = 1" | "k = 2" | "k = 3" by arith
  then show ?thesis
  proof cases
    case 1
    with assms(4) show ?thesis by (simp only: sdk_create_answered)
  next
    case 2
    with assms(3) have "retryable (http 1)" by simp
    then have "sdk_create 2 http 0 1 = sdk_create 2 http 1 2"
      by (rule sdk_create_retry) simp_all
    also from 2 assms(4) have "\<dots> = (k, Returns choices)" by (simp only: sdk_create_answered)
    finally show ?thesis .
  next
    case 3
    with assms(3) have r: "retryable (http 1)" "retryable (http 2)" by simp_all
    from r(1) have "sdk_create 2 http 0 1 = sdk_create 2 http 1 2"
      by (rule sdk_create_retry) simp_all
    also from r(2) have "\<dots> = sdk_create 2 http 2 3"
      by (rule sdk_create_retry) simp_all
    also from 3 assms(4) have "\<dots> = (k, Returns choices)" by (simp only: sdk_create_answered)
    finally show ?thesis .
  qed
qed

lemma sdk_create_timeouts:
  assumes "http 1 = TimedOut" "http 2 = TimedOut" "http 3 = TimedOut"
  shows "sdk_create 2 http 0 1 = (3, Fails APITimeoutError)"
proof -
  from assms have r: "retryable (http 1)" "retryable (http 2)" by (simp_all add: retryable_def)
  from r(1) have "sdk_create 2 http 0 1 = sdk_create 2 http 1 2"
    by (rule sdk_create_retry) simp_all
  also from r(2) have "\<dots> = sdk_create 2 http 2 3"
    by (rule sdk_create_retry) simp_all
  also from assms(3) have "\<dots> = (3, Fails APITimeoutError)"
    by (rule sdk_create_timed_out) simp
  finally show ?thesis .
qed

lemma requests_through_bound: "requests_through http k \<le> 3 * k"
proof (induction k)
  case 0
  then show ?case by simp
next
  case (Suc k)
  from sdk_create_bound[of "Suc (requests_through http k)" 2 http 0]
  have "requests_through http (Suc k) \<le> requests_through http k + 3" by simp
  with Suc show ?case by simp
qed

lemma llm_attempts_bound: "fst (llm_generate_with_openai self create) \<le> 3"
  by (simp add: llm_generate_unfold split: sum.splits)

lemma llm_generate_http_bound: "fst (llm_generate_http self http) \<le> 9"
proof -
  obtain a sl r where g: "llm_generate_with_openai self (sdk_calls http) = (a, sl, r)"
    by (cases "llm_generate_with_openai self (sdk_calls http)")
  from llm_attempts_bound[of self "sdk_calls http"] g have "a \<le> 3" by simp
  with requests_through_bound[of http a] have "requests_through http a \<le> 9" by simp
  with g show ?thesis by (simp add: llm_generate_http_def)
qed

lemma ct_translate_code_requests: "fst (ct_translate_code cfg c http) \<le> 3"
  using sdk_create_bound[of 1 2 http 0]
  by (auto simp: ct_translate_code_def split: sum.splits prod.splits remote.splits list.splits)

lemma rag_complete_requests:
  "1 \<le> fst (rag_complete r http) \<and> fst (rag_complete r http) \<le> 3"
  using sdk_create_bound[of 1 2 http 0]
  by (auto simp: rag_complete_def split: prod.splits remote.splits list.splits)

text \<open>
  On a response with an empty \<open>choices\<close> list \<open>translate_code\<close> and \<open>complete\<close> log an
  error and return the empty string.
\<close>

lemma ct_translate_code_no_choices:
  assumes "ct_get_openai_client cfg self = Inr cl" "http 1 = Answered []"
  shows "ct_translate_code cfg self http =
           (1, [Log INFO ''Translating code from %s to %s'',
                Log ERROR ''Unexpected response structure: %r''], Inr [])"
  using assms by (simp add: ct_translate_code_def sdk_create_answered)

lemma rag_complete_no_choices:
  assumes "http 1 = Answered []"
  shows "rag_complete self http =
           (1, [Log ERROR ''Unexpected completion response: %r''], Inr [])"
  using assms by (simp add: rag_complete_def sdk_create_answered)

text \<open>
  Claim C5, as amended. In the LLM client of pdf-podcast \<open>generate_with_openai\<close> makes at
  most three attempts, each one call of the SDK's \<open>create\<close>: when attempt \<open>k \<le> 3\<close> is the
  first to succeed the caller gets its result, after \<open>k - 1\<close> waits of 4 seconds, and no
  error; when all three fail the caller gets \<open>RetryError\<close> holding the third exception;
  every wait of the policy lies between 4 and 10 seconds. \<open>translate_code\<close> of
  code-translation and \<open>complete\<close> of rag-chatbot call \<open>create\<close> once and have no retry of
  their own. Under each call of \<open>create\<close> the SDK, whose clients are built without
  \<open>max_retries\<close>, sends the HTTP request again after a timeout, a failed connection or a
  status 408, 409, 429 or from 500 on, at most twice. So \<open>generate_with_openai\<close> sends at
  most nine requests, and \<open>translate_code\<close> and \<open>complete\<close> at most three; for these two,
  a first request refused with any other status is raised after that one request; a
  request \<open>k \<le> 3\<close> that is answered after retryable failures only gives the result, with
  no error; and three timeouts are raised as a timeout after three requests. None of the
  five resolvers, of code-translation, doc-summarization, rag-chatbot and the LLM and TTS
  clients of pdf-podcast, issues the token request more than once. The waits of the SDK
  between its requests are left out of the model.
\<close>

theorem generation_retry_policy:
  "(\<forall>k v. 1 \<le> k \<and> k \<le> 3
        \<and> (\<forall>j. 1 \<le> j \<and> j < k \<longrightarrow> (\<exists>e. llm_generate_attempt self (create j) = Inl e))
        \<and> llm_generate_attempt self (create k) = Inr v
      \<longrightarrow> llm_generate_with_openai self create = (k, replicate (k - 1) 4, Inr v))
   \<and> (\<forall>e1 e2 e3. llm_generate_attempt self (create 1) = Inl e1
        \<and> llm_generate_attempt self (create 2) = Inl e2
        \<and> llm_generate_attempt self (create 3) = Inl e3
      \<longrightarrow> llm_generate_with_openai self create = (3, [4, 4], Inl (RetryError e3)))
   \<and> (\<forall>n. 4 \<le> wait_exponential 1 4 10 n \<and> wait_exponential 1 4 10 n \<le> 10)
   \<and> fst (llm_generate_http self http) \<le> 9
   \<and> fst (ct_translate_code cfg c http) \<le> 3
   \<and> (1 \<le> fst (rag_complete r http) \<and> fst (rag_complete r http) \<le> 3)
   \<and> (\<forall>cl st. ct_get_openai_client cfg c = Inr cl \<and> http 1 = Refused st \<and> \<not> should_retry st
        \<longrightarrow> ct_translate_code cfg c http =
              (1, [Log INFO ''Translating code from %s to %s'',
                   Log ERROR ''Error translating code: %s''], Inl (APIStatusError st)))
   \<and> (\<forall>st. http 1 = Refused st \<and> \<not> should_retry st
        \<longrightarrow> rag_complete r http =
              (1, [Log ERROR ''Completion error: %s''], Inl (APIStatusError st)))
   \<and> (\<forall>cl k content rest. ct_get_openai_client cfg c = Inr cl \<and> 1 \<le> k \<and> k \<le> 3
        \<and> (\<forall>j. 1 \<le> j \<and> j < k \<longrightarrow> retryable (http j))
        \<and> http k = Answered (content # rest)
        \<longrightarrow> ct_translate_code cfg c http =
              (k, [Log INFO ''Translating code from %s to %s'',
                   Log INFO ''Successfully translated code (%d characters)''],
               Inr (strip_code_fences (str_val content))))
   \<and> (\<forall>k content rest. 1 \<le> k \<and> k \<le> 3
        \<and> (\<forall>j. 1 \<le> j \<and> j < k \<longrightarrow> retryable (http j))
        \<and> http k = Answered (content # rest)
        \<longrightarrow> rag_complete r http = (k, [], Inr (str_val content)))
   \<and> (\<forall>cl. ct_get_openai_client cfg c = Inr cl
        \<and> http 1 = TimedOut \<and> http 2 = TimedOut \<and> http 3 = TimedOut
        \<longrightarrow> ct_translate_code cfg c http =
              (3, [Log INFO ''Translating code from %s to %s'',
                   Log ERROR ''Error translating code: %s''], Inl APITimeoutError))
   \<and> length (filter is_post (fst (ct_new cfg post))) \<le> 1
   \<and> length (filter is_post (fst (ds_new cfg post))) \<le> 1
   \<and> length (filter is_post (fst (rag_new cfg post))) \<le> 1
   \<and> length (filter is_post (fst (llm_new cfg post))) \<le> 1
   \<and> length (filter is_post (fst (tts_new cfg settings api_key_arg base_url_arg post))) \<le> 1"
proof -
  have succ: "llm_generate_with_openai self create = (k, replicate (k - 1) 4, Inr v)"
    if k: "1 \<le> k" "k \<le> 3"
      and before: "\<forall>j. 1 \<le> j \<and> j < k \<longrightarrow> (\<exists>e. llm_generate_attempt self (create j) = Inl e)"
      and at: "llm_generate_attempt self (create k) = Inr v" for k v
  proof -
    from k consider "k = 1" | "k = 2" | "k = 3" by arith
    then show ?thesis
    proof cases
      case 1
      with at show ?thesis by (simp add: llm_generate_unfold)
    next
      case 2
      with before obtain e where "llm_generate_attempt self (create 1) = Inl e" by auto
      with 2 at show ?thesis by (simp add: llm_generate_unfold)
    next
      case 3
      with before obtain e where e: "llm_generate_attempt self (create 1) = Inl e" by auto
      from 3 before have "\<exists>e. llm_generate_attempt self (create 2) = Inl e" by simp
      then obtain e' where "llm_generate_attempt self (create 2) = Inl e'" by auto
      with 3 at e show ?thesis by (simp add: llm_generate_unfold eval_nat_numeral)
    qed
  qed
  then have c1: "\<forall>k v. 1 \<le> k \<and> k \<le> 3
        \<and> (\<forall>j. 1 \<le> j \<and> j < k \<longrightarrow> (\<exists>e. llm_generate_attempt self (create j) = Inl e))
        \<and> llm_generate_attempt self (create k) = Inr v
      \<longrightarrow> llm_generate_with_openai self create = (k, replicate (k - 1) 4, Inr v)"
    by simp
  have c2: "\<forall>e1 e2 e3. llm_generate_attempt self (create 1) = Inl e1
        \<and> llm_generate_attempt self (create 2) = Inl e2
        \<and> llm_generate_attempt self (create 3) = Inl e3
      \<longrightarrow> llm_generate_with_openai self create = (3, [4, 4], Inl (RetryError e3))"
    by (simp add: llm_generate_unfold)
  have c3: "\<forall>n. 4 \<le> wait_exponential 1 4 10 n \<and> wait_exponential 1 4 10 n \<le> 10"
    by (simp add: wait_exponential_window)
  note c4 = llm_generate_http_bound[of self http]
  note c5 = ct_translate_code_requests[of cfg c http]
  note c6 = rag_complete_requests[of r http, THEN conjunct1]
    rag_complete_requests[of r http, THEN conjunct2]
  have c7: "\<forall>cl st. ct_get_openai_client cfg c = Inr cl \<and> http 1 = Refused st
        \<and> \<not> should_retry st
        \<longrightarrow> ct_translate_code cfg c http =
              (1, [Log INFO ''Translating code from %s to %s'',
                   Log ERROR ''Error translating code: %s''], Inl (APIStatusError st))"
    by (simp add: ct_translate_code_def sdk_create_refused)
  have c8: "\<forall>st. http 1 = Refused st \<and> \<not> should_retry st
        \<longrightarrow> rag_complete r http =
              (1, [Log ERROR ''Completion error: %s''], Inl (APIStatusError st))"
    by (simp add: rag_complete_def sdk_create_refused)
  have c9: "\<forall>cl k content rest. ct_get_openai_client cfg c = Inr cl \<and> 1 \<le> k \<and> k \<le> 3
        \<and> (\<forall>j. 1 \<le> j \<and> j < k \<longrightarrow> retryable (http j))
        \<and> http k = Answered (content # rest)
        \<longrightarrow> ct_translate_code cfg c http =
              (k, [Log INFO ''Translating code from %s to %s'',
                   Log INFO ''Successfully translated code (%d characters)''],
               Inr (strip_code_fences (str_val content)))"
  proof (intro allI impI)
    fix cl k content rest
    assume a: "ct_get_openai_client cfg c = Inr cl \<and> 1 \<le> k \<and> k \<le> 3
        \<and> (\<forall>j. 1 \<le> j \<and> j < k \<longrightarrow> retryable (http j))
        \<and> http k = Answered (content # rest)"
    then have "sdk_create 2 http 0 1 = (k, Returns (content # rest))"
      by (intro sdk_create_success) simp_all
    with a show "ct_translate_code cfg c http =
              (k, [Log INFO ''Translating code from %s to %s'',
                   Log INFO ''Successfully translated code (%d characters)''],
               Inr (strip_code_fences (str_val content)))"
      by (simp add: ct_translate_code_def)
  qed
  have c10: "\<forall>k content rest. 1 \<le> k \<and> k \<le> 3
        \<and> (\<forall>j. 1 \<le> j \<and> j < k \<longrightarrow> retryable (http j))
        \<and> http k = Answered (content # rest)
        \<longrightarrow> rag_complete r http = (k, [], Inr (str_val content))"
  proof (intro allI impI)
    fix k content rest
    assume a: "1 \<le> k \<and> k \<le> 3
        \<and> (\<forall>j. 1 \<le> j \<and> j < k \<longrightarrow> retryable (http j))
        \<and> http k = Answered (content # rest)"
    then have "sdk_create 2 http 0 1 = (k, Returns (content # rest))"
      by (intro sdk_create_success) simp_all
    then show "rag_complete r http = (k, [], Inr (str_val content))"
      by (simp add: rag_complete_def)
  qed
  have c11: "\<forall>cl. ct_get_openai_client cfg c = Inr cl
        \<and> http 1 = TimedOut \<and> http 2 = TimedOut \<and> http 3 = TimedOut
        \<longrightarrow> ct_translate_code cfg c http =
              (3, [Log INFO ''Translating code from %s to %s'',
                   Log ERROR ''Error translating code: %s''], Inl APITimeoutError)"
  proof (intro allI impI)
    fix cl
    assume a: "ct_get_openai_client cfg c = Inr cl
        \<and> http 1 = TimedOut \<and> http 2 = TimedOut \<and> http 3 = TimedOut"
    then have "sdk_create 2 http 0 1 = (3, Fails APITimeoutError)"
      by (intro sdk_create_timeouts) simp_all
    with a show "ct_translate_code cfg c http =
              (3, [Log INFO ''Translating code from %s to %s'',
                   Log ERROR ''Error translating code: %s''], Inl APITimeoutError)"
      by (simp add: ct_translate_code_def)
  qed
  note c12 = ct_new_posts[of cfg post]
  note c13 = ds_new_posts[of cfg post]
  note c14 = rag_new_posts[of cfg post]
  note c15 = llm_new_posts[of cfg post]
  note c16 = tts_new_posts[of cfg settings api_key_arg base_url_arg post]
  from c1 c2 c3 c4 c5 c6 c7 c8 c9 c10 c11 c12 c13 c14 c15 c16 show ?thesis
    apply -
    apply (intro conjI)
                     apply assumption+
    done
qed

theorem generation_retry_policy_witness:
  "ct_translate_code full_cfg ready_ct slow_start =
     (3, [Log INFO ''Translating code from %s to %s'',
          Log INFO ''Successfully translated code (%d characters)''], Inr ''ok'')
   \<and> llm_generate_with_openai ready_llm (sdk_calls slow_start) = (1, [], Inr ''ok'')
   \<and> llm_generate_http ready_llm always_slow = (9, 3, [4, 4], Inl (RetryError APITimeoutError))"
proof -
  note g = generation_retry_policy[of ready_llm "sdk_calls slow_start" slow_start full_cfg
      ready_ct
      ready_rag
      "\<lambda>url p. Raised (RequestException ''unreachable'')"
      "\<lparr>TTS_BASE_URL = None, TTS_API_KEY = None\<rparr>" None None]
  have cl: "ct_get_openai_client full_cfg ready_ct =
      Inr \<lparr>client_api_key = ''sk-1'', client_base_url = ''http://gw/v1/chat/completions''\<rparr>"
    by code_simp
  have h: "(1::nat) \<le> 3 \<and> (3::nat) \<le> 3
      \<and> (\<forall>j. 1 \<le> j \<and> j < 3 \<longrightarrow> retryable (slow_start j))
      \<and> slow_start 3 = Answered [Some ''ok'']"
    by (simp add: slow_start_def retryable_def)
  have s: "strip_code_fences (str_val (Some ''ok'')) = ''ok''" by code_simp
  have ct: "\<forall>cl k content rest.
        ct_get_openai_client full_cfg ready_ct = Inr cl \<and> 1 \<le> k \<and> k \<le> 3
        \<and> (\<forall>j. 1 \<le> j \<and> j < k \<longrightarrow> retryable (slow_start j))
        \<and> slow_start k = Answered (content # rest)
        \<longrightarrow> ct_translate_code full_cfg ready_ct slow_start =
              (k, [Log INFO ''Translating code from %s to %s'',
                   Log INFO ''Successfully translated code (%d characters)''],
               Inr (strip_code_fences (str_val content)))"
    using g
    apply -
    apply (elim conjE)
    apply assumption
    done
  from cl h ct
  have 1: "ct_translate_code full_cfg ready_ct slow_start =
     (3, [Log INFO ''Translating code from %s to %s'',
          Log INFO ''Successfully translated code (%d characters)''],
      Inr (strip_code_fences (str_val (Some ''ok''))))"
    by blast
  have llm: "\<forall>k v. 1 \<le> k \<and> k \<le> 3
        \<and> (\<forall>j. 1 \<le> j \<and> j < k \<longrightarrow>
              (\<exists>e. llm_generate_attempt ready_llm (sdk_calls slow_start j) = Inl e))
        \<and> llm_generate_attempt ready_llm (sdk_calls slow_start k) = Inr v
      \<longrightarrow> llm_generate_with_openai ready_llm (sdk_calls slow_start)
            = (k, replicate (k - 1) 4, Inr v)"
    using g
    apply -
    apply (elim conjE)
    apply assumption
    done
  have a: "llm_generate_attempt ready_llm (sdk_calls slow_start 1) = Inr ''ok''" by code_simp
  have b: "(1::nat) \<le> 1 \<and> (1::nat) \<le> 3
      \<and> (\<forall>j. 1 \<le> j \<and> j < (1::nat) \<longrightarrow>
            (\<exists>e. llm_generate_attempt ready_llm (sdk_calls slow_start j) = Inl e))"
    by simp
  from a b llm
  have "llm_generate_with_openai ready_llm (sdk_calls slow_start)
          = (1, replicate (1 - 1) 4, Inr ''ok'')"
    by blast
  then have 2: "llm_generate_with_openai ready_llm (sdk_calls slow_start) = (1, [], Inr ''ok'')"
    by simp
  have 3: "llm_generate_http ready_llm always_slow
      = (9, 3, [4, 4], Inl (RetryError APITimeoutError))"
    by code_simp
  from 1 2 3 s show ?thesis by simp
qed

text \<open>
  Claim C5 as stated fails on code-translation and rag-chatbot: a request refused with
  status 401 is not sent again. \<open>translate_code\<close> and \<open>complete\<close> raise after one request,
  although the second request would have been answered.
\<close>

theorem translate_code_raises_on_first_refusal:
  "ct_translate_code full_cfg ready_ct refused_once =
     (1, [Log INFO ''Translating code from %s to %s'', Log ERROR ''Error translating code: %s''],
      Inl (APIStatusError 401))
   \<and> refused_once 2 = Answered [Some ''ok'']
   \<and> rag_complete ready_rag refused_once
       = (1, [Log ERROR ''Completion error: %s''], Inl (APIStatusError 401))"
  by code_simp


section \<open>Batch speech generation: properties\<close>

text \<open>The loop: the tasks and paths it builds, by index.\<close>

lemma batch_loop_eq:
  "batch_loop d i zs (ts, ps) =
     (ts @ map (\<lambda>(j, (t, v)). \<lparr>text = t, voice = v, output_path = segment_path d
         j\<rparr>)
             (enumerate i zs),
      ps @ map (\<lambda>(j, z). segment_path d j) (enumerate i zs))"
proof (induction zs arbitrary: i ts ps)
  case Nil
  then show ?case by simp
next
  case (Cons z zs)
  obtain t v where z: "z = (t, v)" by (cases z)
  show ?case unfolding z by (simp add: Cons.IH)
qed

lemma map_index_only: "map (\<lambda>(j, z). f j) xs = map f (map fst xs)"
  by (induction xs) auto

lemma batch_loop_paths:
  "snd (batch_loop d 0 zs ([], [])) = map (segment_path d) [0..<length zs]"
  by (simp add: batch_loop_eq map_index_only del: map_map)

lemma batch_loop_tasks:
  assumes "i < length zs"
  shows "fst (batch_loop d 0 zs ([], [])) ! i =
           \<lparr>text = fst (zs ! i), voice = snd (zs ! i), output_path = segment_path d
               i\<rparr>"
  using assms by (simp add: batch_loop_eq nth_enumerate_eq case_prod_beta)

lemma batch_loop_length: "length (fst (batch_loop d 0 zs ([], []))) = length zs"
  by (simp add: batch_loop_eq)

lemma batch_zip_take:
  "zip (take (min (length xs) (length ys)) xs) (take (min (length xs) (length ys)) ys) = zip xs ys"
  by (simp add: take_zip[symmetric])

text \<open>What a move of the scheduler does to the state.\<close>

lemma sched_step_Acquire:
  assumes "sched_step (Acquire i) s = Some (t, s')"
  shows "(i, t) \<in> set (waiting s)" and "0 < permits s"
    and "waiting s' = remove1 (i, t) (waiting s)" and "in_flight s' = (i, t) # in_flight s"
    and "permits s' = permits s - 1"
  using assms by (auto simp: sched_step.simps split: option.splits if_splits dest: map_of_SomeD)

lemma sched_step_Complete:
  assumes "sched_step (Complete i) s = Some (t, s')"
  shows "(i, t) \<in> set (in_flight s)"
    and "waiting s' = waiting s" and "in_flight s' = remove1 (i, t) (in_flight s)"
    and "permits s' = permits s + 1"
  using assms by (auto simp: sched_step.simps split: option.splits dest: map_of_SomeD)

lemma sched_step_jobs:
  assumes "sched_step m s = Some (t, s')"
  shows "set (waiting s') \<subseteq> set (waiting s)"
    and "set (waiting s') \<union> set (in_flight s') \<subseteq> set (waiting s) \<union> set
        (in_flight s)"
proof -
  have "set (waiting s') \<subseteq> set (waiting s)
      \<and> set (waiting s') \<union> set (in_flight s') \<subseteq> set (waiting s) \<union> set
          (in_flight s)"
  proof (cases m)
    case (Acquire i)
    with assms have a: "(i, t) \<in> set (waiting s)" "waiting s' = remove1 (i, t) (waiting s)"
      "in_flight s' = (i, t) # in_flight s"
      by (simp_all only: sched_step_Acquire)
    have "set (remove1 (i, t) (waiting s)) \<subseteq> set (waiting s)" by (rule set_remove1_subset)
    with a show ?thesis by auto
  next
    case (Complete i)
    with assms have a: "waiting s' = waiting s" "in_flight s' = remove1 (i, t) (in_flight s)"
      by (simp_all only: sched_step_Complete)
    have "set (remove1 (i, t) (in_flight s)) \<subseteq> set (in_flight s)"
      by (rule set_remove1_subset)
    with a show ?thesis by auto
  qed
  then show "set (waiting s') \<subseteq> set (waiting s)"
    and "set (waiting s') \<union> set (in_flight s') \<subseteq> set (waiting s) \<union> set
        (in_flight s)"
    by simp_all
qed

lemma inv_step:
  assumes "sched_step m s = Some (t, s')" and "length (in_flight s) + permits s = limit"
  shows "length (in_flight s') + permits s' = limit"
proof (cases m)
  case (Acquire i)
  with assms(1) have "in_flight s' = (i, t) # in_flight s" "permits s' = permits s - 1"
    "0 < permits s" by (simp_all only: sched_step_Acquire)
  with assms(2) show ?thesis by simp
next
  case (Complete i)
  with assms(1) have i: "(i, t) \<in> set (in_flight s)"
    and s': "in_flight s' = remove1 (i, t) (in_flight s)" "permits s' = permits s + 1"
    by (simp_all only: sched_step_Complete)
  from i have "0 < length (in_flight s)" by (rule length_pos_if_in_set)
  with i have "length (in_flight s) = Suc (length (remove1 (i, t) (in_flight s)))"
    by (simp add: length_remove1)
  with assms(2) show ?thesis by (simp add: s')
qed

text \<open>
  The gathering, unfolded by one move, and the induction over a schedule that follows
  its branches.
\<close>

lemma gather_done:
  "waiting s = [] \<and> in_flight s = [] \<Longrightarrow> gather c sp ms s = ([], [s], Some (Inr
      ()))"
  by (subst gather.simps) simp

lemma gather_Nil:
  "\<not> (waiting s = [] \<and> in_flight s = []) \<Longrightarrow> gather c sp [] s = ([], [s],
      None)"
  by (subst gather.simps) (simp only: if_False list.case)

lemma gather_Cons:
  assumes "\<not> (waiting s = [] \<and> in_flight s = [])"
  shows "gather c sp (m # rest) s =
     (case sched_step m s of
        None \<Rightarrow> ([], [s], None)
      | Some (t, s') \<Rightarrow>
          (case m of
             Acquire i \<Rightarrow>
               if \<not> c
               then ([], [s],
                     Some (Inl (RuntimeError (''TTSClient is not configured, check ''
                                  @ ''TTS_BASE_URL and auth settings''))))
               else
                 (case gather c sp rest s' of
                    (ev, sts, r) \<Rightarrow>
                      ([Logged INFO ''Generating speech: voice=%s, length=%d chars''
                          [Str (voice t), Num (length (text t))],
                        Call i t] @ ev,
                       s # sts, r))
           | Complete i \<Rightarrow>
               (case sp i t of
                  Inl e \<Rightarrow>
                    ([Logged ERROR ''Speech generation failed: %s'' [Exc e]],
                     [s, s'], Some (Inl e))
                | Inr audio \<Rightarrow>
                    (case gather c sp rest s' of
                       (ev, sts, r) \<Rightarrow>
                         ([Written (output_path t) audio,
                           Logged INFO ''Saved audio to %s'' [PathArg (output_path t)],
                           Logged INFO ''Generated %d bytes of audio''
                             [Num (length audio)]] @ ev,
                          s # sts, r)))))"
  using assms by (subst gather.simps) (simp only: if_False list.case)

lemma gather_cases [consumes 0, case_names finished stuck unconfigured acquire failed complete]:
  assumes "\<And>ms s. waiting s = [] \<and> in_flight s = [] \<Longrightarrow> P ms s ([], [s],
      Some (Inr ()))"
    and "\<And>ms s. \<not> (waiting s = [] \<and> in_flight s = [])
           \<Longrightarrow> ms = [] \<or> (\<exists>m rest. ms = m # rest \<and> sched_step m s =
               None)
           \<Longrightarrow> P ms s ([], [s], None)"
    and "\<And>i rest s t s'. \<not> (waiting s = [] \<and> in_flight s = [])
           \<Longrightarrow> sched_step (Acquire i) s = Some (t, s') \<Longrightarrow> \<not> c
           \<Longrightarrow> P (Acquire i # rest) s
                 ([], [s], Some (Inl (RuntimeError (''TTSClient is not configured, check ''
                                        @ ''TTS_BASE_URL and auth settings''))))"
    and "\<And>i rest s t s' ev sts r. \<not> (waiting s = [] \<and> in_flight s = [])
           \<Longrightarrow> sched_step (Acquire i) s = Some (t, s') \<Longrightarrow> c
           \<Longrightarrow> gather c sp rest s' = (ev, sts, r) \<Longrightarrow> P rest s' (ev,
               sts, r)
           \<Longrightarrow> P (Acquire i # rest) s
                 ([Logged INFO ''Generating speech: voice=%s, length=%d chars''
                     [Str (voice t), Num (length (text t))],
                   Call i t] @ ev,
                  s # sts, r)"
    and "\<And>i rest s t s' e. \<not> (waiting s = [] \<and> in_flight s = [])
           \<Longrightarrow> sched_step (Complete i) s = Some (t, s') \<Longrightarrow> sp i t =
               Inl e
           \<Longrightarrow> P (Complete i # rest) s
                 ([Logged ERROR ''Speech generation failed: %s'' [Exc e]], [s, s'],
                  Some (Inl e))"
    and "\<And>i rest s t s' audio ev sts r. \<not> (waiting s = [] \<and> in_flight s = [])
           \<Longrightarrow> sched_step (Complete i) s = Some (t, s') \<Longrightarrow> sp i t =
               Inr audio
           \<Longrightarrow> gather c sp rest s' = (ev, sts, r) \<Longrightarrow> P rest s' (ev,
               sts, r)
           \<Longrightarrow> P (Complete i # rest) s
                 ([Written (output_path t) audio,
                   Logged INFO ''Saved audio to %s'' [PathArg (output_path t)],
                   Logged INFO ''Generated %d bytes of audio'' [Num (length audio)]] @ ev,
                  s # sts, r)"
  shows "P ms s (gather c sp ms s)"
proof (induction ms arbitrary: s)
  case Nil
  show ?case
  proof (cases "waiting s = [] \<and> in_flight s = []")
    case True
    with assms(1)[OF True, of "[]"] show ?thesis by (simp only: gather_done)
  next
    case False
    with assms(2)[OF False, of "[]"] show ?thesis by (simp add: gather_Nil)
  qed
next
  case (Cons m rest)
  show ?case
  proof (cases "waiting s = [] \<and> in_flight s = []")
    case True
    with assms(1)[OF True, of "m # rest"] show ?thesis by (simp only: gather_done)
  next
    case False
    note unfold = gather_Cons[OF False, of c sp m rest]
    show ?thesis
    proof (cases "sched_step m s")
      case None
      then have "m # rest = [] \<or> (\<exists>m' rest'. m # rest = m' # rest' \<and> sched_step m'
          s = None)"
        by blast
      from assms(2)[OF False this] None show ?thesis by (simp only: unfold option.case)
    next
      case (Some p)
      obtain t s' where p: "p = (t, s')" by (cases p)
      obtain ev sts r where g: "gather c sp rest s' = (ev, sts, r)"
        by (cases "gather c sp rest s'")
      from Cons.IH[of s'] g have ih: "P rest s' (ev, sts, r)" by simp
      show ?thesis
      proof (cases m)
        case (Acquire i)
        from Some p Acquire have st: "sched_step (Acquire i) s = Some (t, s')" by simp
        show ?thesis
        proof (cases c)
          case True
          have "gather c sp (Acquire i # rest) s =
                  ([Logged INFO ''Generating speech: voice=%s, length=%d chars''
                      [Str (voice t), Num (length (text t))],
                    Call i t] @ ev,
                   s # sts, r)"
            apply (subst gather_Cons[OF False])
            apply (insert g True)
            apply (simp add: st)
            done
          with assms(4)[OF False st True g ih] Acquire show ?thesis by simp
        next
          case False': False
          have "gather c sp (Acquire i # rest) s =
                  ([], [s], Some (Inl (RuntimeError (''TTSClient is not configured, check ''
                                        @ ''TTS_BASE_URL and auth settings''))))"
            apply (subst gather_Cons[OF False])
            apply (insert False')
            apply (simp add: st)
            done
          with assms(3)[OF False st False', of rest] Acquire show ?thesis by simp
        qed
      next
        case (Complete i)
        from Some p Complete have st: "sched_step (Complete i) s = Some (t, s')" by simp
        show ?thesis
        proof (cases "sp i t")
          case (Inl e)
          have "gather c sp (Complete i # rest) s =
                  ([Logged ERROR ''Speech generation failed: %s'' [Exc e]], [s, s'],
                   Some (Inl e))"
            apply (subst gather_Cons[OF False])
            apply (simp add: st Inl)
            done
          with assms(5)[OF False st Inl, of rest] Complete show ?thesis by simp
        next
          case (Inr audio)
          have "gather c sp (Complete i # rest) s =
                  ([Written (output_path t) audio,
                    Logged INFO ''Saved audio to %s'' [PathArg (output_path t)],
                    Logged INFO ''Generated %d bytes of audio'' [Num (length audio)]] @ ev,
                   s # sts, r)"
            apply (subst gather_Cons[OF False])
            apply (simp add: st g Inr)
            done
          with assms(6)[OF False st Inr g ih] Complete show ?thesis by simp
        qed
      qed
    qed
  qed
qed


lemma set_remove1_insert: "set xs \<subseteq> insert x (set (remove1 x xs))"
  by (induction xs) auto

lemma sched_step_jobs_Acquire:
  assumes "sched_step (Acquire i) s = Some (t, s')"
  shows "set (waiting s') \<union> set (in_flight s') = set (waiting s) \<union> set (in_flight s)"
proof -
  from assms have a: "(i, t) \<in> set (waiting s)" "waiting s' = remove1 (i, t) (waiting s)"
    "in_flight s' = (i, t) # in_flight s"
    by (simp_all only: sched_step_Acquire)
  have "set (remove1 (i, t) (waiting s)) \<subseteq> set (waiting s)" by (rule set_remove1_subset)
  moreover have "set (waiting s) \<subseteq> insert (i, t) (set (remove1 (i, t) (waiting s)))"
    by (rule set_remove1_insert)
  ultimately show ?thesis using a by auto
qed

lemma sched_step_jobs_Complete:
  assumes "sched_step (Complete i) s = Some (t, s')"
  shows "set (waiting s) \<union> set (in_flight s)
           \<subseteq> insert (i, t) (set (waiting s') \<union> set (in_flight s'))"
proof -
  from assms have a: "waiting s' = waiting s" "in_flight s' = remove1 (i, t) (in_flight s)"
    by (simp_all only: sched_step_Complete)
  have "set (in_flight s) \<subseteq> insert (i, t) (set (remove1 (i, t) (in_flight s)))"
    by (rule set_remove1_insert)
  with a show ?thesis by auto
qed

lemma gather_induct [consumes 1, case_names finished stuck unconfigured acquire failed complete]:
  assumes "gather c sp ms s = res"
    and "\<And>ms s. waiting s = [] \<and> in_flight s = [] \<Longrightarrow> P ms s ([], [s], Some
        (Inr ()))"
    and "\<And>ms s. \<not> (waiting s = [] \<and> in_flight s = [])
           \<Longrightarrow> ms = [] \<or> (\<exists>m rest. ms = m # rest \<and> sched_step m s =
               None)
           \<Longrightarrow> P ms s ([], [s], None)"
    and "\<And>i rest s t s'. \<not> (waiting s = [] \<and> in_flight s = [])
           \<Longrightarrow> sched_step (Acquire i) s = Some (t, s') \<Longrightarrow> \<not> c
           \<Longrightarrow> P (Acquire i # rest) s
                 ([], [s], Some (Inl (RuntimeError (''TTSClient is not configured, check ''
                                        @ ''TTS_BASE_URL and auth settings''))))"
    and "\<And>i rest s t s' ev sts r. \<not> (waiting s = [] \<and> in_flight s = [])
           \<Longrightarrow> sched_step (Acquire i) s = Some (t, s') \<Longrightarrow> c
           \<Longrightarrow> gather c sp rest s' = (ev, sts, r) \<Longrightarrow> P rest s' (ev,
               sts, r)
           \<Longrightarrow> P (Acquire i # rest) s
                 ([Logged INFO ''Generating speech: voice=%s, length=%d chars''
                     [Str (voice t), Num (length (text t))],
                   Call i t] @ ev,
                  s # sts, r)"
    and "\<And>i rest s t s' e. \<not> (waiting s = [] \<and> in_flight s = [])
           \<Longrightarrow> sched_step (Complete i) s = Some (t, s') \<Longrightarrow> sp i t =
               Inl e
           \<Longrightarrow> P (Complete i # rest) s
                 ([Logged ERROR ''Speech generation failed: %s'' [Exc e]], [s, s'],
                  Some (Inl e))"
    and "\<And>i rest s t s' audio ev sts r. \<not> (waiting s = [] \<and> in_flight s = [])
           \<Longrightarrow> sched_step (Complete i) s = Some (t, s') \<Longrightarrow> sp i t =
               Inr audio
           \<Longrightarrow> gather c sp rest s' = (ev, sts, r) \<Longrightarrow> P rest s' (ev,
               sts, r)
           \<Longrightarrow> P (Complete i # rest) s
                 ([Written (output_path t) audio,
                   Logged INFO ''Saved audio to %s'' [PathArg (output_path t)],
                   Logged INFO ''Generated %d bytes of audio'' [Num (length audio)]] @ ev,
                  s # sts, r)"
  shows "P ms s res"
proof -
  have "P ms s (gather c sp ms s)"
    by (rule gather_cases[of P c sp ms s]) (fact assms(2-7))+
  with assms(1) show ?thesis by simp
qed

text \<open>
  What holds of the gathering from any state: the jobs in flight and the free permits
  add up to the limit; the remote calls are calls of waiting jobs, each at most once, and
  of all of them when the gathering returns; the files written and the lines logged
  belong to jobs of the state; an exception is that of an unconfigured client or of a
  job; and a schedule that completes the state makes the gathering return.
\<close>

lemma gather_states_inv:
  assumes "gather c sp ms s = res"
  shows "length (in_flight s) + permits s = limit
         \<longrightarrow> (\<forall>s' \<in> set (fst (snd res)). length (in_flight s') + permits
             s' = limit)"
  using assms by (induct rule: gather_induct) (auto dest: inv_step)

lemma gather_calls_waiting:
  assumes "gather c sp ms s = res"
  shows "set (calls (fst res)) \<subseteq> set (waiting s)"
  using assms
proof (induct rule: gather_induct)
  case (acquire i rest s t s' ev sts r)
  from sched_step_jobs(1)[OF acquire(2)] sched_step_Acquire(1)[OF acquire(2)] acquire(5)
  show ?case by auto
next
  case (complete i rest s t s' audio ev sts r)
  from sched_step_jobs(1)[OF complete(2)] complete(5)
  show ?case by auto
qed simp_all

lemma gather_calls_distinct:
  assumes "gather c sp ms s = res"
  shows "distinct (waiting s) \<longrightarrow> distinct (calls (fst res))"
  using assms
proof (induct rule: gather_induct)
  case (acquire i rest s t s' ev sts r)
  show ?case
  proof
    assume d: "distinct (waiting s)"
    from acquire(2) have w: "waiting s' = remove1 (i, t) (waiting s)"
      by (rule sched_step_Acquire)
    from d w have d': "distinct (waiting s')" by simp
    from d w have "(i, t) \<notin> set (waiting s')" by simp
    moreover from gather_calls_waiting[OF acquire(4)]
    have "set (calls ev) \<subseteq> set (waiting s')" by simp
    ultimately have "(i, t) \<notin> set (calls ev)" by blast
    with acquire(5) d' show "distinct (calls (fst ([Logged INFO
                   ''Generating speech: voice=%s, length=%d chars''
                   [Str (voice t), Num (length (text t))],
                 Call i t] @ ev, s # sts, r)))"
      by simp
  qed
next
  case (complete i rest s t s' audio ev sts r)
  from complete(2) have "waiting s' = waiting s" by (rule sched_step_Complete)
  with complete(5) show ?case by simp
qed simp_all

lemma gather_calls_all:
  assumes "gather c sp ms s = res"
  shows "snd (snd res) = Some (Inr ()) \<longrightarrow> set (waiting s) \<subseteq> set (calls
      (fst res))"
  using assms
proof (induct rule: gather_induct)
  case (acquire i rest s t s' ev sts r)
  from acquire(2) have w: "waiting s' = remove1 (i, t) (waiting s)"
    by (rule sched_step_Acquire)
  have "set (waiting s) \<subseteq> insert (i, t) (set (remove1 (i, t) (waiting s)))"
    by (rule set_remove1_insert)
  with acquire(5) w show ?case by auto
next
  case (complete i rest s t s' audio ev sts r)
  from complete(2) have "waiting s' = waiting s" by (rule sched_step_Complete)
  with complete(5) show ?case by simp
qed simp_all

lemma gather_trace_bound:
  assumes "gather c sp ms s = res"
  shows "\<forall>ev'. prefix ev' (fst res) \<longrightarrow> length (calls ev') \<le> length
      (written ev') + permits s"
  using assms
proof (induct rule: gather_induct)
  case (acquire i rest s t s' ev sts r)
  from acquire(2) have p: "0 < permits s" "permits s' = permits s - 1"
    by (rule sched_step_Acquire)+
  show ?case
  proof (intro allI impI)
    fix ev'
    assume "prefix ev' (fst ([Logged INFO ''Generating speech: voice=%s, length=%d chars''
                   [Str (voice t), Num (length (text t))],
                 Call i t] @ ev, s # sts, r))"
    then consider "ev' = []"
      | "ev' = [Logged INFO ''Generating speech: voice=%s, length=%d chars''
                   [Str (voice t), Num (length (text t))]]"
      | ev'' where "ev' = [Logged INFO ''Generating speech: voice=%s, length=%d chars''
                   [Str (voice t), Num (length (text t))], Call i t] @ ev''" "prefix ev'' ev"
      by (auto simp: prefix_Cons)
    then show "length (calls ev') \<le> length (written ev') + permits s"
    proof cases
      case 3
      from acquire(5) 3(2) have "length (calls ev'') \<le> length (written ev'') + permits s'"
        by simp
      with p 3(1) show ?thesis by simp
    qed simp_all
  qed
next
  case (complete i rest s t s' audio ev sts r)
  from complete(2) have p: "permits s' = permits s + 1" by (rule sched_step_Complete)
  show ?case
  proof (intro allI impI)
    fix ev'
    assume "prefix ev' (fst ([Written (output_path t) audio,
                 Logged INFO ''Saved audio to %s'' [PathArg (output_path t)],
                 Logged INFO ''Generated %d bytes of audio'' [Num (length audio)]] @ ev,
                s # sts, r))"
    then consider "calls ev' = []"
      | ev'' where "calls ev' = calls ev''" "written ev' = (output_path t, audio) # written ev''"
          "prefix ev'' ev"
      by (auto simp: prefix_Cons)
    then show "length (calls ev') \<le> length (written ev') + permits s"
    proof cases
      case 2
      from complete(5) 2(3) have "length (calls ev'') \<le> length (written ev'') + permits s'"
        by simp
      with p 2(1,2) show ?thesis by simp
    qed simp_all
  qed
qed (auto simp: prefix_Cons)

lemma gather_written:
  assumes "gather c sp ms s = res"
  shows "\<forall>p a. (p, a) \<in> set (written (fst res))
           \<longrightarrow> (\<exists>(i, t) \<in> set (waiting s) \<union> set (in_flight s).
                  p = output_path t \<and> sp i t = Inr a)"
  using assms
proof (induct rule: gather_induct)
  case (acquire i rest s t s' ev sts r)
  from sched_step_jobs(2)[OF acquire(2)] acquire(5) show ?case by fastforce
next
  case (complete i rest s t s' audio ev sts r)
  from complete(2) have "(i, t) \<in> set (in_flight s)" by (rule sched_step_Complete)
  with sched_step_jobs(2)[OF complete(2)] complete(3,5) show ?case by fastforce
qed simp_all

lemma gather_written_all:
  assumes "gather c sp ms s = res"
  shows "snd (snd res) = Some (Inr ())
         \<longrightarrow> (\<forall>(i, t) \<in> set (waiting s) \<union> set (in_flight s).
                \<exists>a. sp i t = Inr a \<and> (output_path t, a) \<in> set (written (fst res)))"
  using assms
proof (induct rule: gather_induct)
  case (acquire i rest s t s' ev sts r)
  from sched_step_jobs_Acquire[OF acquire(2)] acquire(5) show ?case by fastforce
next
  case (complete i rest s t s' audio ev sts r)
  from sched_step_jobs_Complete[OF complete(2)] complete(3,5) show ?case by fastforce
qed simp_all

lemma gather_error:
  assumes "gather c sp ms s = res"
  shows "\<forall>e. snd (snd res) = Some (Inl e)
           \<longrightarrow> (\<not> c \<and> e = RuntimeError
               (''TTSClient is not configured, check ''
                                        @ ''TTS_BASE_URL and auth settings''))
               \<or> (\<exists>(i, t) \<in> set (waiting s) \<union> set (in_flight s). sp i t =
                   Inl e)"
  using assms
proof (induct rule: gather_induct)
  case (acquire i rest s t s' ev sts r)
  from sched_step_jobs(2)[OF acquire(2)] acquire(5) show ?case by fastforce
next
  case (failed i rest s t s' e)
  from failed(2) have "(i, t) \<in> set (in_flight s)" by (rule sched_step_Complete)
  with failed(3) show ?case by fastforce
next
  case (complete i rest s t s' audio ev sts r)
  from sched_step_jobs(2)[OF complete(2)] complete(5) show ?case by fastforce
qed simp_all

lemma completes_Cons:
  "completes (m # ms) s =
     (case sched_step m s of None \<Rightarrow> False | Some (t, s') \<Rightarrow> completes ms s')"
  by (simp add: completes_def split: option.splits)

lemma gather_returns:
  assumes "gather c sp ms s = res"
  shows "c \<and> completes ms s
         \<and> (\<forall>(i, t) \<in> set (waiting s) \<union> set (in_flight s). \<exists>a. sp i
             t = Inr a)
         \<longrightarrow> snd (snd res) = Some (Inr ())"
  using assms
proof (induct rule: gather_induct)
  case (stuck ms s)
  then show ?case by (auto simp: completes_def)
next
  case (acquire i rest s t s' ev sts r)
  from sched_step_jobs(2)[OF acquire(2)] acquire(2,5) show ?case
    by (fastforce simp: completes_Cons)
next
  case (failed i rest s t s' e)
  from failed(2) have i: "(i, t) \<in> set (in_flight s)" by (rule sched_step_Complete)
  show ?case
  proof (intro impI, elim conjE)
    assume "\<forall>(i, t) \<in> set (waiting s) \<union> set (in_flight s). \<exists>a. sp i t =
        Inr a"
    with i have "\<exists>a. sp i t = Inr a" by blast
    with failed(3) show "snd (snd ([Logged ERROR ''Speech generation failed: %s'' [Exc e]],
               [s, s'], Some (Inl e))) = Some (Inr ())"
      by simp
  qed
next
  case (complete i rest s t s' audio ev sts r)
  from sched_step_jobs(2)[OF complete(2)] complete(2,5) show ?case
    by (fastforce simp: completes_Cons)
qed simp_all


lemma gather_logs:
  assumes "gather c sp ms s = res"
  shows "Logged lv f args \<in> set (fst res)
           \<longrightarrow> (\<exists>(i, t) \<in> set (waiting s) \<union> set (in_flight s).
                  (lv = INFO \<and> f = ''Generating speech: voice=%s, length=%d chars''
                     \<and> args = [Str (voice t), Num (length (text t))])
                  \<or> (lv = INFO \<and> f = ''Saved audio to %s'' \<and> args = [PathArg
                      (output_path t)])
                  \<or> (\<exists>a. sp i t = Inr a \<and> lv = INFO \<and> f =
                      ''Generated %d bytes of audio''
                          \<and> args = [Num (length a)])
                  \<or> (\<exists>e. sp i t = Inl e \<and> lv = ERROR \<and> f =
                      ''Speech generation failed: %s''
                          \<and> args = [Exc e]))"
proof -
  define Q where "Q = (\<lambda>i t.
      (lv = INFO \<and> f = ''Generating speech: voice=%s, length=%d chars''
         \<and> args = [Str (voice t), Num (length (text t))])
      \<or> (lv = INFO \<and> f = ''Saved audio to %s'' \<and> args = [PathArg (output_path t)])
      \<or> (\<exists>a. sp i t = Inr a \<and> lv = INFO \<and> f = ''Generated %d bytes of audio''
              \<and> args = [Num (length a)])
      \<or> (\<exists>e. sp i t = Inl e \<and> lv = ERROR \<and> f =
          ''Speech generation failed: %s''
              \<and> args = [Exc e]))"
  from assms have "Logged lv f args \<in> set (fst res)
           \<longrightarrow> (\<exists>(i, t) \<in> set (waiting s) \<union> set (in_flight s). Q i
               t)"
  proof (induct rule: gather_induct)
    case (acquire i rest s t s' ev sts r)
    from acquire(2) have i: "(i, t) \<in> set (waiting s)" by (rule sched_step_Acquire)
    note sub = sched_step_jobs(2)[OF acquire(2)]
    show ?case
    proof
      assume "Logged lv f args \<in> set (fst ([Logged INFO
                     ''Generating speech: voice=%s, length=%d chars''
                     [Str (voice t), Num (length (text t))],
                   Call i t] @ ev, s # sts, r))"
      then have "Q i t \<or> Logged lv f args \<in> set ev" by (auto simp: Q_def)
      then show "\<exists>(i, t) \<in> set (waiting s) \<union> set (in_flight s). Q i t"
      proof
        assume "Q i t"
        with i show ?thesis by blast
      next
        assume "Logged lv f args \<in> set ev"
        with acquire(5) have "\<exists>(i, t) \<in> set (waiting s') \<union> set (in_flight s'). Q
            i t"
          by simp
        with sub show ?thesis by blast
      qed
    qed
  next
    case (failed i rest s t s' e)
    from failed(2) have i: "(i, t) \<in> set (in_flight s)" by (rule sched_step_Complete)
    show ?case
    proof
      assume "Logged lv f args
                \<in> set (fst ([Logged ERROR ''Speech generation failed: %s'' [Exc e]], [s, s'],
                        Some (Inl e)))"
      with failed(3) have "Q i t" by (auto simp: Q_def)
      with i show "\<exists>(i, t) \<in> set (waiting s) \<union> set (in_flight s). Q i t" by blast
    qed
  next
    case (complete i rest s t s' audio ev sts r)
    from complete(2) have i: "(i, t) \<in> set (in_flight s)" by (rule sched_step_Complete)
    note sub = sched_step_jobs(2)[OF complete(2)]
    show ?case
    proof
      assume "Logged lv f args \<in> set (fst ([Written (output_path t) audio,
                   Logged INFO ''Saved audio to %s'' [PathArg (output_path t)],
                   Logged INFO ''Generated %d bytes of audio'' [Num (length audio)]] @ ev,
                  s # sts, r))"
      with complete(3) have "Q i t \<or> Logged lv f args \<in> set ev" by (auto simp: Q_def)
      then show "\<exists>(i, t) \<in> set (waiting s) \<union> set (in_flight s). Q i t"
      proof
        assume "Q i t"
        with i show ?thesis by blast
      next
        assume "Logged lv f args \<in> set ev"
        with complete(5) have "\<exists>(i, t) \<in> set (waiting s') \<union> set (in_flight s').
            Q i t"
          by simp
        with sub show ?thesis by blast
      qed
    qed
  qed simp_all
  then show ?thesis unfolding Q_def .
qed

text \<open>Running the jobs one by one completes any batch once a permit is free.\<close>

lemma one_by_one_from:
  assumes "waiting s = enumerate k ts" and "in_flight s = []" and "0 < permits s"
  shows "completes (concat (map (\<lambda>i. [Acquire i, Complete i]) [k..<k + length ts])) s"
  using assms
proof (induction ts arbitrary: k s)
  case Nil
  then show ?case by (simp add: completes_def)
next
  case (Cons t ts)
  define s1 where "s1 = s\<lparr>waiting := remove1 (k, t) (waiting s),
      in_flight := (k, t) # in_flight s, permits := permits s - 1\<rparr>"
  define s2 where "s2 = s1\<lparr>in_flight := remove1 (k, t) (in_flight s1),
      finished := finished s1 @ [k], permits := permits s1 + 1\<rparr>"
  from Cons.prems have a: "sched_step (Acquire k) s = Some (t, s1)"
    by (simp add: sched_step.simps s1_def)
  from Cons.prems have b: "sched_step (Complete k) s1 = Some (t, s2)"
    by (simp add: sched_step.simps s1_def s2_def)
  from Cons.prems have w: "waiting s2 = enumerate (Suc k) ts" "in_flight s2 = []"
    "0 < permits s2"
    by (simp_all add: s1_def s2_def)
  have u: "[k..<k + length (t # ts)] = k # [Suc k..<Suc k + length ts]"
    by (subst upt_rec) simp
  from Cons.IH[OF w] show ?case
    unfolding u by (simp add: completes_Cons a b)
qed

lemma one_by_one_init:
  "0 < limit \<Longrightarrow> completes (one_by_one (length tasks)) (gather_init tasks limit)"
  using one_by_one_from[of "gather_init tasks limit" 0 tasks]
  by (simp add: one_by_one_def gather_init_def)

text \<open>The same facts for \<^verbatim>\<open>generate_speech_batch\<close>, from the state the loop sets up.\<close>

lemma calls_append: "calls (xs @ ys) = calls xs @ calls ys"
  by (induction xs rule: calls.induct) simp_all

lemma written_append: "written (xs @ ys) = written xs @ written ys"
  by (induction xs rule: written.induct) simp_all

lemma init_jobs:
  "((i, t) \<in> set (waiting (gather_init tasks limit)) \<union> set (in_flight (gather_init tasks
      limit)))
     = (i < length tasks \<and> t = tasks ! i)"
  by (auto simp: gather_init_def in_set_enumerate_eq)

lemma batch_loop_zip_tasks:
  assumes "i < min (length texts) (length voices)"
  shows "fst (batch_loop d 0 (zip texts voices) ([], [])) ! i =
           \<lparr>text = texts ! i, voice = voices ! i, output_path = segment_path d i\<rparr>"
  using assms by (simp add: batch_loop_tasks)

lemma generate_speech_batch_unfold:
  assumes "gather (client self \<noteq> None) sp ms
             (gather_init (fst (batch_loop d 0 (zip texts voices) ([], []))) (nat lim))
           = (ev, sts, r)"
  shows "generate_speech_batch self texts voices d lim sp ms =
     (if lim < 0 then ([], [], Some (Inl (ValueError ''Semaphore initial value must be >= 0'')))
      else (case r of
              None \<Rightarrow> (ev, sts, None)
            | Some (Inl e) \<Rightarrow> (ev, sts, Some (Inl e))
            | Some (Inr u) \<Rightarrow>
                (ev @ [Logged INFO ''Generated %d audio segments''
                         [Num (min (length texts) (length voices))]],
                 sts,
                 Some (Inr (map (segment_path d) [0..<min (length texts) (length voices)])))))"
proof -
  obtain tasks paths where bl: "batch_loop d 0 (zip texts voices) ([], []) = (tasks, paths)"
    by (cases "batch_loop d 0 (zip texts voices) ([], [])")
  from batch_loop_paths[of d "zip texts voices"] bl
  have p: "paths = map (segment_path d) [0..<min (length texts) (length voices)]" by simp
  from assms bl have g: "gather (client self \<noteq> None) sp ms (gather_init tasks (nat lim))
       = (ev, sts, r)" by simp
  show ?thesis
    unfolding generate_speech_batch_def bl prod.case g p
    by (simp split: option.splits sum.splits)
qed


lemma batch_states:
  assumes "gather (client self \<noteq> None) sp ms
             (gather_init (fst (batch_loop d 0 (zip texts voices) ([], []))) (nat lim))
           = (ev, sts, r)"
  shows "fst (snd (generate_speech_batch self texts voices d lim sp ms)) = (if lim < 0 then [] else
      sts)"
  by (simp add: generate_speech_batch_unfold[OF assms] split: option.splits sum.splits)

lemma batch_events:
  assumes "gather (client self \<noteq> None) sp ms
             (gather_init (fst (batch_loop d 0 (zip texts voices) ([], []))) (nat lim))
           = (ev, sts, r)"
  shows "fst (generate_speech_batch self texts voices d lim sp ms) =
           (if lim < 0 then []
            else if r = Some (Inr ())
            then ev @ [Logged INFO ''Generated %d audio segments'' [Num (min (length texts) (length
                voices))]]
            else ev)"
  by (simp add: generate_speech_batch_unfold[OF assms] split: option.splits sum.splits)

lemma batch_result:
  assumes "gather (client self \<noteq> None) sp ms
             (gather_init (fst (batch_loop d 0 (zip texts voices) ([], []))) (nat lim))
           = (ev, sts, r)"
  shows "snd (snd (generate_speech_batch self texts voices d lim sp ms)) =
           (if lim < 0 then Some (Inl (ValueError ''Semaphore initial value must be >= 0''))
            else (case r of
                    None \<Rightarrow> None
                  | Some (Inl e) \<Rightarrow> Some (Inl e)
                  | Some (Inr u) \<Rightarrow> Some (Inr (map (segment_path d) [0..<min (length
                      texts) (length voices)]))))"
  by (simp add: generate_speech_batch_unfold[OF assms] split: option.splits sum.splits)

lemma batch_calls_ev:
  assumes "gather (client self \<noteq> None) sp ms
             (gather_init (fst (batch_loop d 0 (zip texts voices) ([], []))) (nat lim))
           = (ev, sts, r)"
  shows "calls (fst (generate_speech_batch self texts voices d lim sp ms)) = (if lim < 0 then []
      else calls ev)"
  by (simp add: batch_events[OF assms] calls_append)

lemma batch_written_ev:
  assumes "gather (client self \<noteq> None) sp ms
             (gather_init (fst (batch_loop d 0 (zip texts voices) ([], []))) (nat lim))
           = (ev, sts, r)"
  shows "written (fst (generate_speech_batch self texts voices d lim sp ms)) = (if lim < 0 then []
      else written ev)"
  by (simp add: batch_events[OF assms] written_append)

lemma batch_tasks_length: "length (fst (batch_loop d 0 (zip texts voices) ([], []))) = min (length
    texts) (length voices)"
  by (simp add: batch_loop_length)

lemma batch_jobs:
  "((i, t) \<in> set (waiting (gather_init (fst (batch_loop d 0 (zip texts voices) ([], [])))
      limit)) \<union> set (in_flight (gather_init (fst (batch_loop d 0 (zip texts voices) ([],
          []))) limit)))
     = (i < min (length texts) (length voices) \<and> t = (fst (batch_loop d 0 (zip texts voices)
         ([], []))) ! i)"
  by (simp only: init_jobs batch_tasks_length)

lemma batch_waiting:
  "((i, t) \<in> set (waiting (gather_init (fst (batch_loop d 0 (zip texts voices) ([], [])))
      limit))) = (i < min (length texts) (length voices) \<and> t = (fst (batch_loop d 0 (zip texts
          voices) ([], []))) ! i)"
  using batch_jobs[of i t d texts voices limit] by (simp add: gather_init_def)

lemma batch_states_bounded:
  assumes "s \<in> set (fst (snd (generate_speech_batch self texts voices d lim sp ms)))"
  shows "length (in_flight s) \<le> nat lim"
proof -
  obtain ev sts r where g: "gather (client self \<noteq> None) sp ms
             (gather_init (fst (batch_loop d 0 (zip texts voices) ([], []))) (nat lim))
           = (ev, sts, r)"
    by (cases "gather (client self \<noteq> None) sp ms (gather_init (fst (batch_loop d 0 (zip
        texts voices) ([], []))) (nat lim))")
  from assms have s: "s \<in> set sts" and l: "\<not> lim < 0"
    by (simp_all add: batch_states[OF g] split: if_splits)
  have "length (in_flight (gather_init (fst (batch_loop d 0 (zip texts voices) ([], []))) (nat
      lim))) + permits (gather_init (fst (batch_loop d 0 (zip texts voices) ([], []))) (nat lim))
          = nat lim"
    by (simp add: gather_init_def)
  with gather_states_inv[OF g, of "nat lim"] s
  have "length (in_flight s) + permits s = nat lim" by simp
  then show ?thesis by simp
qed

lemma batch_trace_bounded:
  assumes "prefix ev' (fst (generate_speech_batch self texts voices d lim sp ms))"
  shows "length (calls ev') \<le> length (written ev') + nat lim"
proof -
  obtain ev sts r where g: "gather (client self \<noteq> None) sp ms
             (gather_init (fst (batch_loop d 0 (zip texts voices) ([], []))) (nat lim))
           = (ev, sts, r)"
    by (cases "gather (client self \<noteq> None) sp ms (gather_init (fst (batch_loop d 0 (zip
        texts voices) ([], []))) (nat lim))")
  have p: "permits (gather_init (fst (batch_loop d 0 (zip texts voices) ([], []))) (nat lim)) = nat
      lim" by (simp add: gather_init_def)
  from gather_trace_bound[OF g] p
  have b: "\<And>e. prefix e ev \<Longrightarrow> length (calls e) \<le> length (written e) + nat
      lim" by simp
  from assms consider "ev' = []" | "prefix ev' ev"
    | "ev' = ev @ [Logged INFO ''Generated %d audio segments'' [Num (min (length texts) (length
        voices))]]"
    by (auto simp: batch_events[OF g] split: if_splits)
  then show ?thesis
  proof cases
    case 3
    from b[of ev] show ?thesis by (simp add: 3 calls_append written_append)
  qed (simp_all add: b)
qed

lemma batch_calls:
  assumes "(i, t) \<in> set (calls (fst (generate_speech_batch self texts voices d lim sp ms)))"
  shows "i < min (length texts) (length voices) \<and> t = \<lparr>text = texts ! i, voice = voices
      ! i, output_path = segment_path d i\<rparr>"
proof -
  obtain ev sts r where g: "gather (client self \<noteq> None) sp ms
             (gather_init (fst (batch_loop d 0 (zip texts voices) ([], []))) (nat lim))
           = (ev, sts, r)"
    by (cases "gather (client self \<noteq> None) sp ms (gather_init (fst (batch_loop d 0 (zip
        texts voices) ([], []))) (nat lim))")
  from assms have "(i, t) \<in> set (calls ev)"
    by (simp add: batch_calls_ev[OF g] split: if_splits)
  with gather_calls_waiting[OF g]
  have "(i, t) \<in> set (waiting (gather_init (fst (batch_loop d 0 (zip texts voices) ([], [])))
      (nat lim)))" by auto
  then have i: "i < min (length texts) (length voices)" and t: "t = (fst (batch_loop d 0 (zip texts
      voices) ([], []))) ! i" by (simp_all only: batch_waiting)
  from t batch_loop_zip_tasks[OF i, of d] i show ?thesis by simp
qed

lemma batch_calls_distinct: "distinct (calls (fst (generate_speech_batch self texts voices d lim sp
    ms)))"
proof -
  obtain ev sts r where g: "gather (client self \<noteq> None) sp ms
             (gather_init (fst (batch_loop d 0 (zip texts voices) ([], []))) (nat lim))
           = (ev, sts, r)"
    by (cases "gather (client self \<noteq> None) sp ms (gather_init (fst (batch_loop d 0 (zip
        texts voices) ([], []))) (nat lim))")
  have "distinct (waiting (gather_init (fst (batch_loop d 0 (zip texts voices) ([], []))) (nat
      lim)))"
    by (simp add: gather_init_def distinct_enumerate)
  with gather_calls_distinct[OF g] show ?thesis
    by (simp add: batch_calls_ev[OF g])
qed

lemma batch_written:
  assumes "(p, a) \<in> set (written (fst (generate_speech_batch self texts voices d lim sp ms)))"
  shows "\<exists>i < min (length texts) (length voices). p = segment_path d i \<and> sp i ((fst
      (batch_loop d 0 (zip texts voices) ([], []))) ! i) = Inr a"
proof -
  obtain ev sts r where g: "gather (client self \<noteq> None) sp ms
             (gather_init (fst (batch_loop d 0 (zip texts voices) ([], []))) (nat lim))
           = (ev, sts, r)"
    by (cases "gather (client self \<noteq> None) sp ms (gather_init (fst (batch_loop d 0 (zip
        texts voices) ([], []))) (nat lim))")
  from assms have "(p, a) \<in> set (written ev)"
    by (simp add: batch_written_ev[OF g] split: if_splits)
  with gather_written[OF g] obtain i t
    where j: "(i, t) \<in> set (waiting (gather_init (fst (batch_loop d 0 (zip texts voices) ([],
        []))) (nat lim)))
                 \<union> set (in_flight (gather_init (fst (batch_loop d 0 (zip texts voices) ([],
                     []))) (nat lim)))"
      and e: "p = output_path t" "sp i t = Inr a"
    by fastforce
  from j have i: "i < min (length texts) (length voices)" and t: "t = (fst (batch_loop d 0 (zip
      texts voices) ([], []))) ! i" by (simp_all only: batch_jobs)
  from batch_loop_zip_tasks[OF i, of d] t have "output_path t = segment_path d i" by simp
  with i e t show ?thesis by auto
qed

lemma batch_return:
  assumes "snd (snd (generate_speech_batch self texts voices d lim sp ms)) = Some (Inr ps)"
  shows "ps = map (segment_path d) [0..<min (length texts) (length voices)]
         \<and> length (calls (fst (generate_speech_batch self texts voices d lim sp ms))) = min
             (length texts) (length voices)
         \<and> (\<forall>i < min (length texts) (length voices). (i, (fst (batch_loop d 0 (zip
             texts voices) ([], []))) ! i) \<in> set (calls (fst (generate_speech_batch self texts
                 voices d lim sp ms)))
                \<and> (\<exists>a. sp i ((fst (batch_loop d 0 (zip texts voices) ([], []))) ! i) =
                    Inr a
                       \<and> (segment_path d i, a) \<in> set (written (fst (generate_speech_batch
                           self texts voices d lim sp ms)))))
         \<and> last (fst (generate_speech_batch self texts voices d lim sp ms)) = Logged INFO
             ''Generated %d audio segments'' [Num (min (length texts) (length voices))]"
proof -
  obtain ev sts r where g: "gather (client self \<noteq> None) sp ms
             (gather_init (fst (batch_loop d 0 (zip texts voices) ([], []))) (nat lim))
           = (ev, sts, r)"
    by (cases "gather (client self \<noteq> None) sp ms (gather_init (fst (batch_loop d 0 (zip
        texts voices) ([], []))) (nat lim))")
  from assms have l: "\<not> lim < 0" and r: "r = Some (Inr ())"
    and ps: "ps = map (segment_path d) [0..<min (length texts) (length voices)]"
    by (auto simp: batch_result[OF g] split: if_splits option.splits sum.splits)
  have ev: "fst (generate_speech_batch self texts voices d lim sp ms) = ev @ [Logged INFO
      ''Generated %d audio segments'' [Num (min (length texts) (length voices))]]"
    by (simp add: batch_events[OF g] l r)
  have c: "calls (fst (generate_speech_batch self texts voices d lim sp ms)) = calls ev" by (simp
      add: batch_calls_ev[OF g] l)
  have w: "written (fst (generate_speech_batch self texts voices d lim sp ms)) = written ev" by
      (simp add: batch_written_ev[OF g] l)
  let ?s = "gather_init (fst (batch_loop d 0 (zip texts voices) ([], []))) (nat lim)"
  have d: "distinct (waiting ?s)" by (simp add: gather_init_def distinct_enumerate)
  from gather_calls_all[OF g] r have "set (waiting ?s) \<subseteq> set (calls ev)" by simp
  with gather_calls_waiting[OF g] have e: "set (calls ev) = set (waiting ?s)" by auto
  from gather_calls_distinct[OF g] d have "distinct (calls ev)" by simp
  with d e have "length (calls ev) = length (waiting ?s)"
    by (metis distinct_card)
  then have n: "length (calls ev) = min (length texts) (length voices)"
    by (simp add: gather_init_def batch_loop_length)
  have "\<forall>i < min (length texts) (length voices). (i, (fst (batch_loop d 0 (zip texts
      voices) ([], []))) ! i) \<in> set (calls ev)
                \<and> (\<exists>a. sp i ((fst (batch_loop d 0 (zip texts voices) ([], []))) ! i) =
                    Inr a \<and> (segment_path d i, a) \<in> set (written ev))"
  proof (intro allI impI)
    fix i
    assume i: "i < min (length texts) (length voices)"
    then have j: "(i, (fst (batch_loop d 0 (zip texts voices) ([], []))) ! i) \<in> set (waiting
        ?s)" by (simp only: batch_waiting)
    then have j': "(i, (fst (batch_loop d 0 (zip texts voices) ([], []))) ! i) \<in> set (waiting
        ?s) \<union> set (in_flight ?s)" by simp
    from gather_written_all[OF g] r j'
    have "\<exists>a. sp i ((fst (batch_loop d 0 (zip texts voices) ([], []))) ! i) = Inr a \<and>
        (output_path ((fst (batch_loop d 0 (zip texts voices) ([], []))) ! i), a) \<in> set
            (written ev)"
      by fastforce
    moreover from batch_loop_zip_tasks[OF i, of d]
    have "output_path ((fst (batch_loop d 0 (zip texts voices) ([], []))) ! i) = segment_path d i"
        by simp
    ultimately show "(i, (fst (batch_loop d 0 (zip texts voices) ([], []))) ! i) \<in> set (calls
        ev)
                \<and> (\<exists>a. sp i ((fst (batch_loop d 0 (zip texts voices) ([], []))) ! i) =
                    Inr a \<and> (segment_path d i, a) \<in> set (written ev))"
      using j e by simp
  qed
  with ps n show ?thesis unfolding c w by (simp add: ev)
qed

lemma batch_error:
  assumes "snd (snd (generate_speech_batch self texts voices d lim sp ms)) = Some (Inl e)"
  shows "(lim < 0 \<and> e = ValueError ''Semaphore initial value must be >= 0'')
         \<or> (client self = None
             \<and> e = RuntimeError (''TTSClient is not configured, check ''
                                  @ ''TTS_BASE_URL and auth settings''))
         \<or> (\<exists>i < min (length texts) (length voices). sp i ((fst (batch_loop d 0 (zip
             texts voices) ([], []))) ! i) = Inl e)"
proof (cases "lim < 0")
  case True
  obtain ev sts r where g: "gather (client self \<noteq> None) sp ms
             (gather_init (fst (batch_loop d 0 (zip texts voices) ([], []))) (nat lim))
           = (ev, sts, r)"
    by (cases "gather (client self \<noteq> None) sp ms (gather_init (fst (batch_loop d 0 (zip
        texts voices) ([], []))) (nat lim))")
  from assms True show ?thesis by (simp add: batch_result[OF g])
next
  case False
  obtain ev sts r where g: "gather (client self \<noteq> None) sp ms
             (gather_init (fst (batch_loop d 0 (zip texts voices) ([], []))) (nat lim))
           = (ev, sts, r)"
    by (cases "gather (client self \<noteq> None) sp ms (gather_init (fst (batch_loop d 0 (zip
        texts voices) ([], []))) (nat lim))")
  from assms False have "r = Some (Inl e)"
    by (auto simp: batch_result[OF g] split: option.splits sum.splits)
  with gather_error[OF g]
  consider "client self = None \<and> e = RuntimeError (''TTSClient is not configured, check ''
                                  @ ''TTS_BASE_URL and auth settings'')"
    | i t where "(i, t) \<in> set (waiting (gather_init (fst (batch_loop d 0 (zip texts voices)
        ([], []))) (nat lim)))
                 \<union> set (in_flight (gather_init (fst (batch_loop d 0 (zip texts voices) ([],
                     []))) (nat lim)))" "sp i t = Inl e"
    by (simp only: snd_conv) blast
  then show ?thesis
  proof cases
    case 1
    then show ?thesis by simp
  next
    case 2
    from 2(1) have "i < min (length texts) (length voices)" "t = (fst (batch_loop d 0 (zip texts
        voices) ([], []))) ! i" by (simp_all only: batch_jobs)
    with 2(2) show ?thesis by blast
  qed
qed

lemma batch_returns:
  assumes "client self \<noteq> None" and "0 \<le> lim"
    and "completes ms (gather_init (fst (batch_loop d 0 (zip texts voices) ([], []))) (nat lim))"
    and "\<forall>i < min (length texts) (length voices). \<exists>a. sp i ((fst (batch_loop d 0
        (zip texts voices) ([], []))) ! i) = Inr a"
  shows "snd (snd (generate_speech_batch self texts voices d lim sp ms)) = Some (Inr (map
      (segment_path d) [0..<min (length texts) (length voices)]))"
proof -
  obtain ev sts r where g: "gather (client self \<noteq> None) sp ms
             (gather_init (fst (batch_loop d 0 (zip texts voices) ([], []))) (nat lim))
           = (ev, sts, r)"
    by (cases "gather (client self \<noteq> None) sp ms (gather_init (fst (batch_loop d 0 (zip
        texts voices) ([], []))) (nat lim))")
  have "\<forall>(i, t) \<in> set (waiting (gather_init (fst (batch_loop d 0 (zip texts voices)
      ([], []))) (nat lim)))
                 \<union> set (in_flight (gather_init (fst (batch_loop d 0 (zip texts voices) ([],
                     []))) (nat lim))). \<exists>a. sp i t = Inr a"
  proof (intro ballI, simp only: split_paired_all prod.case)
    fix i t
    assume "(i, t) \<in> set (waiting (gather_init (fst (batch_loop d 0 (zip texts voices) ([],
        []))) (nat lim)))
                 \<union> set (in_flight (gather_init (fst (batch_loop d 0 (zip texts voices) ([],
                     []))) (nat lim)))"
    then have "i < min (length texts) (length voices)" "t = (fst (batch_loop d 0 (zip texts voices)
        ([], []))) ! i" by (simp_all only: batch_jobs)
    with assms(4) show "\<exists>a. sp i t = Inr a" by simp
  qed
  with gather_returns[OF g] assms(1,3) have "r = Some (Inr ())" by simp
  with assms(2) show ?thesis by (simp add: batch_result[OF g])
qed

lemma batch_one_by_one:
  "0 < lim \<Longrightarrow> completes (one_by_one (min (length texts) (length voices)))
      (gather_init (fst (batch_loop d 0 (zip texts voices) ([], []))) (nat lim))"
  using one_by_one_init[of "nat lim" "fst (batch_loop d 0 (zip texts voices) ([], []))"] by (simp
      add: batch_loop_length)

lemma batch_take:
  "generate_speech_batch self (take (min (length texts) (length voices)) texts) (take (min (length
      texts) (length voices)) voices) d lim sp ms = generate_speech_batch self texts voices d lim
          sp ms"
  by (simp only: generate_speech_batch_def batch_zip_take)

lemma batch_logs:
  assumes "Logged lv f args \<in> set (fst (generate_speech_batch self texts voices d lim sp ms))"
  shows "(lv = INFO \<and> f = ''Generated %d audio segments'' \<and> args = [Num (min (length
      texts) (length voices))])
         \<or> (\<exists>i < min (length texts) (length voices).
              (lv = INFO \<and> f = ''Generating speech: voice=%s, length=%d chars''
                 \<and> args = [Str (voices ! i), Num (length (texts ! i))])
              \<or> (lv = INFO \<and> f = ''Saved audio to %s'' \<and> args = [PathArg
                  (segment_path d i)])
              \<or> (\<exists>a. sp i ((fst (batch_loop d 0 (zip texts voices) ([], []))) ! i) =
                  Inr a \<and> lv = INFO
                      \<and> f = ''Generated %d bytes of audio'' \<and> args = [Num (length a)])
              \<or> (\<exists>e. sp i ((fst (batch_loop d 0 (zip texts voices) ([], []))) ! i) =
                  Inl e \<and> lv = ERROR
                      \<and> f = ''Speech generation failed: %s'' \<and> args = [Exc e]))"
proof -
  obtain ev sts r where g: "gather (client self \<noteq> None) sp ms
             (gather_init (fst (batch_loop d 0 (zip texts voices) ([], []))) (nat lim))
           = (ev, sts, r)"
    by (cases "gather (client self \<noteq> None) sp ms (gather_init (fst (batch_loop d 0 (zip
        texts voices) ([], []))) (nat lim))")
  define Q where "Q = (\<lambda>i t.
      (lv = INFO \<and> f = ''Generating speech: voice=%s, length=%d chars''
         \<and> args = [Str (voice t), Num (length (text t))])
      \<or> (lv = INFO \<and> f = ''Saved audio to %s'' \<and> args = [PathArg (output_path t)])
      \<or> (\<exists>a. sp i t = Inr a \<and> lv = INFO \<and> f = ''Generated %d bytes of audio''
              \<and> args = [Num (length a)])
      \<or> (\<exists>e. sp i t = Inl e \<and> lv = ERROR \<and> f =
          ''Speech generation failed: %s''
              \<and> args = [Exc e]))"
  define F where "F = (lv = INFO \<and> f = ''Generated %d audio segments'' \<and> args = [Num (min
      (length texts) (length voices))])"
  from assms have "F \<or> Logged lv f args \<in> set ev"
    by (auto simp: batch_events[OF g] F_def split: if_splits)
  then have "F \<or> (\<exists>i < min (length texts) (length voices). Q i ((fst (batch_loop d 0
      (zip texts voices) ([], []))) ! i))"
  proof
    assume "F"
    then show ?thesis by simp
  next
    assume "Logged lv f args \<in> set ev"
    with gather_logs[OF g, of lv f args]
    have "\<exists>(i, t) \<in> set (waiting (gather_init (fst (batch_loop d 0 (zip texts voices)
        ([], []))) (nat lim)))
                 \<union> set (in_flight (gather_init (fst (batch_loop d 0 (zip texts voices) ([],
                     []))) (nat lim))). Q i t"
      unfolding Q_def by (simp only: fst_conv)
    then obtain i t where j: "(i, t) \<in> set (waiting (gather_init (fst (batch_loop d 0 (zip
        texts voices) ([], []))) (nat lim)))
                 \<union> set (in_flight (gather_init (fst (batch_loop d 0 (zip texts voices) ([],
                     []))) (nat lim)))" and q: "Q i t"
      by blast
    from j have "i < min (length texts) (length voices)" "t = (fst (batch_loop d 0 (zip texts
        voices) ([], []))) ! i" by (simp_all only: batch_jobs)
    with q show ?thesis by blast
  qed
  then have fq: "F \<or> (\<exists>i < min (length texts) (length voices). Q i ((fst (batch_loop d
      0 (zip texts voices) ([], []))) ! i))" .
  define R where "R = (\<lambda>i.
      (lv = INFO \<and> f = ''Generating speech: voice=%s, length=%d chars''
                 \<and> args = [Str (voices ! i), Num (length (texts ! i))])
              \<or> (lv = INFO \<and> f = ''Saved audio to %s'' \<and> args = [PathArg
                  (segment_path d i)])
              \<or> (\<exists>a. sp i ((fst (batch_loop d 0 (zip texts voices) ([], []))) ! i) =
                  Inr a \<and> lv = INFO
                      \<and> f = ''Generated %d bytes of audio'' \<and> args = [Num (length a)])
              \<or> (\<exists>e. sp i ((fst (batch_loop d 0 (zip texts voices) ([], []))) ! i) =
                  Inl e \<and> lv = ERROR
                      \<and> f = ''Speech generation failed: %s'' \<and> args = [Exc e]))"
  have qr: "\<And>i. i < min (length texts) (length voices) \<Longrightarrow> Q i ((fst (batch_loop
      d 0 (zip texts voices) ([], []))) ! i) = R i"
  proof -
    fix i
    assume i: "i < min (length texts) (length voices)"
    have sel: "voice ((fst (batch_loop d 0 (zip texts voices) ([], []))) ! i) = voices ! i" "text
        ((fst (batch_loop d 0 (zip texts voices) ([], []))) ! i) = texts ! i"
      "output_path ((fst (batch_loop d 0 (zip texts voices) ([], []))) ! i) = segment_path d i"
      by (simp_all add: batch_loop_zip_tasks[OF i])
    show "Q i ((fst (batch_loop d 0 (zip texts voices) ([], []))) ! i) = R i"
      unfolding Q_def R_def sel ..
  qed
  from fq qr have "F \<or> (\<exists>i < min (length texts) (length voices). R i)" by blast
  then show ?thesis unfolding F_def R_def .
qed


text \<open>
  Claim C6. \<open>generate_speech_batch\<close> builds its tasks and its output paths before any
      job
  is dispatched, one of each per pair of \<open>zip(texts, voices)\<close>: slot \<open>i\<close>
      holds the path
  of segment \<open>i\<close> and the task of \<open>texts[i]\<close> and \<open>voices[i]\<close>
      that writes to this path.
  Under every schedule, no state the gathering passes through has more than
  \<open>MAX_CONCURRENT_REQUESTS\<close> jobs in flight, and at no point of the trace do the remote
  calls issued exceed those answered by more than that limit. Every remote call issued
  is the call of a job \<open>i\<close> with the task of slot \<open>i\<close>, and every audio
      file written is
  at the path of a slot \<open>i\<close> and holds what the remote call of job \<open>i\<close>
      gave. Whenever a
  list is returned, it is the list of output paths, and the audio of every job has been
  written to the path of its slot, whatever the order in which the jobs ended. The list
  is returned whenever the client is configured, the limit is not negative, the schedule
  completes the batch and every remote call succeeds; with a positive limit there is
  such a schedule.
\<close>

theorem batch_bounded_and_aligned:
  assumes loop: "batch_loop output_dir 0 (zip texts voices) ([], []) = (tasks, output_paths)"
    and run: "generate_speech_batch self texts voices output_dir limit speech schedule
                = (events, states, result)"
  shows "(length tasks = min (length texts) (length voices)
          \<and> length output_paths = length tasks)
       \<and> (\<forall>i < length tasks.
             output_paths ! i = segment_path output_dir i
             \<and> tasks ! i = \<lparr>text = texts ! i, voice = voices ! i,
                             output_path = output_paths ! i\<rparr>)
       \<and> (\<forall>s \<in> set states. length (in_flight s) \<le> nat limit)
       \<and> (\<forall>ev. prefix ev events \<longrightarrow> length (calls ev) \<le> length
           (written ev) + nat limit)
       \<and> (\<forall>i t. (i, t) \<in> set (calls events) \<longrightarrow> i < length tasks
           \<and> t = tasks ! i)
       \<and> (\<forall>p audio. (p, audio) \<in> set (written events)
             \<longrightarrow> (\<exists>i < length tasks. p = output_paths ! i \<and> speech i
                 (tasks ! i) = Inr audio))
       \<and> (\<forall>ps. result = Some (Inr ps)
             \<longrightarrow> ps = output_paths
                 \<and> (\<forall>i < length tasks. \<exists>audio. speech i (tasks ! i) = Inr audio
                        \<and> (output_paths ! i, audio) \<in> set (written events)))
       \<and> (client self \<noteq> None \<and> 0 \<le> limit
            \<and> completes schedule (gather_init tasks (nat limit))
            \<and> (\<forall>i < length tasks. \<exists>audio. speech i (tasks ! i) = Inr audio)
           \<longrightarrow> result = Some (Inr output_paths))
       \<and> (0 < limit \<longrightarrow> completes (one_by_one (length tasks)) (gather_init tasks
           (nat limit)))"
proof -
  define m where "m = min (length texts) (length voices)"
  from loop have T: "tasks = fst (batch_loop output_dir 0 (zip texts voices) ([], []))"
    by simp
  from loop batch_loop_paths[of output_dir "zip texts voices"]
  have P: "output_paths = map (segment_path output_dir) [0..<m]" by (simp add: m_def)
  from run
  have E: "events = fst (generate_speech_batch self texts voices output_dir limit speech
                           schedule)"
    and S: "states = fst (snd (generate_speech_batch self texts voices output_dir limit speech
                                 schedule))"
    and R: "result = snd (snd (generate_speech_batch self texts voices output_dir limit speech
                                 schedule))"
    by simp_all
  have n: "length tasks = m" unfolding T m_def by (rule batch_tasks_length)
  have tk: "\<And>i. i < m \<Longrightarrow> tasks ! i = \<lparr>text = texts ! i, voice = voices !
      i,
                             output_path = segment_path output_dir i\<rparr>"
    unfolding T m_def by (rule batch_loop_zip_tasks)
  have c1a: "length tasks = min (length texts) (length voices)" using n by (simp add: m_def)
  have c1b: "length output_paths = length tasks" by (simp add: P n)
  have c2: "\<forall>i < length tasks.
             output_paths ! i = segment_path output_dir i
             \<and> tasks ! i = \<lparr>text = texts ! i, voice = voices ! i,
                             output_path = output_paths ! i\<rparr>"
    by (simp add: n P tk)
  have c3: "\<forall>s \<in> set states. length (in_flight s) \<le> nat limit"
    unfolding S by (intro ballI) (rule batch_states_bounded)
  have c4: "\<forall>ev. prefix ev events \<longrightarrow> length (calls ev) \<le> length (written
      ev) + nat limit"
    unfolding E by (intro allI impI) (rule batch_trace_bounded)
  have c5: "\<forall>i t. (i, t) \<in> set (calls events) \<longrightarrow> i < length tasks \<and>
      t = tasks ! i"
  proof (intro allI impI)
    fix i t
    assume "(i, t) \<in> set (calls events)"
    from batch_calls[OF this[unfolded E]]
    have "i < m" "t = \<lparr>text = texts ! i, voice = voices ! i,
                        output_path = segment_path output_dir i\<rparr>"
      by (simp_all add: m_def)
    then show "i < length tasks \<and> t = tasks ! i" by (simp add: n tk)
  qed
  have c6: "\<forall>p audio. (p, audio) \<in> set (written events)
             \<longrightarrow> (\<exists>i < length tasks. p = output_paths ! i \<and> speech i
                 (tasks ! i) = Inr audio)"
  proof (intro allI impI)
    fix p audio
    assume "(p, audio) \<in> set (written events)"
    from batch_written[OF this[unfolded E]]
    obtain i where "i < m" "p = segment_path output_dir i" "speech i (tasks ! i) = Inr audio"
      unfolding T m_def by blast
    then show "\<exists>i < length tasks. p = output_paths ! i \<and> speech i (tasks ! i) = Inr
        audio"
      by (auto simp: n P)
  qed
  have c7: "\<forall>ps. result = Some (Inr ps)
             \<longrightarrow> ps = output_paths
                 \<and> (\<forall>i < length tasks. \<exists>audio. speech i (tasks ! i) = Inr audio
                        \<and> (output_paths ! i, audio) \<in> set (written events))"
  proof (intro allI impI)
    fix ps
    assume "result = Some (Inr ps)"
    from batch_return[OF this[unfolded R]]
    have a: "ps = map (segment_path output_dir) [0..<m]"
      and b: "\<forall>i < m. \<exists>audio. speech i (tasks ! i) = Inr audio
                \<and> (segment_path output_dir i, audio) \<in> set (written events)"
      unfolding T E m_def by simp_all
    from a b show "ps = output_paths
                 \<and> (\<forall>i < length tasks. \<exists>audio. speech i (tasks ! i) = Inr audio
                        \<and> (output_paths ! i, audio) \<in> set (written events))"
      by (simp add: n P)
  qed
  have c8: "client self \<noteq> None \<and> 0 \<le> limit
            \<and> completes schedule (gather_init tasks (nat limit))
            \<and> (\<forall>i < length tasks. \<exists>audio. speech i (tasks ! i) = Inr audio)
           \<longrightarrow> result = Some (Inr output_paths)"
  proof (intro impI, elim conjE)
    assume a: "client self \<noteq> None" "0 \<le> limit"
      "completes schedule (gather_init tasks (nat limit))"
      "\<forall>i < length tasks. \<exists>audio. speech i (tasks ! i) = Inr audio"
    from a(4) have "\<forall>i < min (length texts) (length voices). \<exists>audio.
        speech i (fst (batch_loop output_dir 0 (zip texts voices) ([], [])) ! i) = Inr audio"
      unfolding T[symmetric] using n by (simp add: m_def)
    from batch_returns[where sp = speech, OF a(1,2) a(3)[unfolded T] this]
    show "result = Some (Inr output_paths)" by (simp add: R P m_def)
  qed
  have c9: "0 < limit
            \<longrightarrow> completes (one_by_one (length tasks)) (gather_init tasks (nat limit))"
    unfolding n unfolding T m_def by (intro impI) (rule batch_one_by_one)
  show ?thesis
    apply (intro conjI)
             apply (fact c1a)
            apply (fact c1b)
           apply (fact c2)
          apply (fact c3)
         apply (fact c4)
        apply (fact c5)
       apply (fact c6)
      apply (fact c7)
     apply (fact c8)
    apply (fact c9)
    done
qed

theorem batch_bounded_and_aligned_witness:
  "completes shuffled
     (gather_init (fst (batch_loop [''out''] 0 (zip five_texts five_voices) ([], []))) 2)
   \<and> snd (snd (generate_speech_batch ready_tts five_texts five_voices [''out''] 2 echo_speech
                  shuffled))
       = Some (Inr [[''out'', ''segment_000.mp3''], [''out'', ''segment_001.mp3''],
                    [''out'', ''segment_002.mp3''], [''out'', ''segment_003.mp3''],
                    [''out'', ''segment_004.mp3'']])
   \<and> map (\<lambda>s. length (in_flight s))
        (fst (snd (generate_speech_batch ready_tts five_texts five_voices [''out''] 2
                     echo_speech shuffled)))
       = [0, 1, 2, 1, 2, 1, 2, 1, 2, 1, 0]
   \<and> map fst (calls (fst (generate_speech_batch ready_tts five_texts five_voices [''out''] 2
                            echo_speech shuffled)))
       = [3, 0, 4, 1, 2]
   \<and> written (fst (generate_speech_batch ready_tts five_texts five_voices [''out''] 2
                     echo_speech shuffled))
       = [([''out'', ''segment_000.mp3''], ''alloy:a''),
          ([''out'', ''segment_004.mp3''], ''nova:eeeee''),
          ([''out'', ''segment_003.mp3''], ''onyx:dddd''),
          ([''out'', ''segment_002.mp3''], ''fable:ccc''),
          ([''out'', ''segment_001.mp3''], ''echo:bb'')]"
proof -
  let ?T = "fst (batch_loop [''out''] 0 (zip five_texts five_voices) ([], []))"
  let ?P = "snd (batch_loop [''out''] 0 (zip five_texts five_voices) ([], []))"
  let ?B = "generate_speech_batch ready_tts five_texts five_voices [''out''] 2 echo_speech
              shuffled"
  have loop: "batch_loop [''out''] 0 (zip five_texts five_voices) ([], []) = (?T, ?P)"
    by simp
  have run: "?B = (fst ?B, fst (snd ?B), snd (snd ?B))" by simp
  note t = batch_bounded_and_aligned[OF loop run]
  have ret: "client ready_tts \<noteq> None \<and> 0 \<le> (2::int)
            \<and> completes shuffled (gather_init ?T (nat 2))
            \<and> (\<forall>i < length ?T. \<exists>audio. echo_speech i (?T ! i) = Inr audio)
           \<longrightarrow> snd (snd ?B) = Some (Inr ?P)"
    using t
    apply -
    apply (elim conjE)
    apply assumption
    done
  have c: "completes shuffled (gather_init ?T 2)" by code_simp
  have k: "client ready_tts \<noteq> None" by (simp add: ready_tts_def)
  have e: "\<forall>i < length ?T. \<exists>audio. echo_speech i (?T ! i) = Inr audio"
    by (simp add: echo_speech_def)
  have p: "?P = [[''out'', ''segment_000.mp3''], [''out'', ''segment_001.mp3''],
                    [''out'', ''segment_002.mp3''], [''out'', ''segment_003.mp3''],
                    [''out'', ''segment_004.mp3'']]"
    by code_simp
  from ret c k e have r: "snd (snd ?B) = Some (Inr ?P)" by simp
  have s: "map (\<lambda>s. length (in_flight s)) (fst (snd ?B)) = [0, 1, 2, 1, 2, 1, 2, 1, 2, 1,
      0]"
    by code_simp
  have i: "map fst (calls (fst ?B)) = [3, 0, 4, 1, 2]" by code_simp
  have w: "written (fst ?B)
       = [([''out'', ''segment_000.mp3''], ''alloy:a''),
          ([''out'', ''segment_004.mp3''], ''nova:eeeee''),
          ([''out'', ''segment_003.mp3''], ''onyx:dddd''),
          ([''out'', ''segment_002.mp3''], ''fable:ccc''),
          ([''out'', ''segment_001.mp3''], ''echo:bb'')]"
    by code_simp
  from c r[unfolded p] s i w show ?thesis
    apply -
    apply (intro conjI)
        apply assumption+
    done
qed

text \<open>
  Claim C10. With \<open>m\<close> the smaller of the two lengths,
      \<open>generate_speech_batch\<close> has on
  \<open>texts\<close> and \<open>voices\<close> the same events, states and result as on their
      first \<open>m\<close>
  elements. It builds \<open>m\<close> tasks and \<open>m\<close> output paths, task
      \<open>i\<close> from \<open>texts[i]\<close> and
  \<open>voices[i]\<close>, path \<open>i\<close> the file \<open>segment_i.mp3\<close> under the
      output directory. Every remote
  call is the call of a job \<open>i < m\<close> with task \<open>i\<close>, and no job is called
      twice. Whenever
  a list is returned, it is the list of the \<open>m\<close> output paths, each of the
      \<open>m\<close> jobs has
  been called, and the last event logs the count \<open>m\<close>. The only errors are
      \<open>ValueError\<close>
  of the semaphore on a negative limit, \<open>RuntimeError\<close> of a client that is not
      configured,
  and the exception of the remote call of a job \<open>i < m\<close>; and every line logged is the
  final count \<open>m\<close> or one of the four lines of a job \<open>i < m\<close>: no error and
      no log line
  comes from the surplus. The list is returned whenever the client is configured, the
  limit is not negative, the schedule completes the batch and every remote call succeeds;
  with a positive limit there is such a schedule. For inputs of equal length there is one
  path per input.
\<close>

theorem batch_truncates_to_shorter_list:
  assumes size: "m = min (length texts) (length voices)"
    and loop: "batch_loop output_dir 0 (zip texts voices) ([], []) = (tasks, output_paths)"
    and run: "generate_speech_batch self texts voices output_dir limit speech schedule
                = (events, states, result)"
  shows "generate_speech_batch self (take m texts) (take m voices) output_dir limit speech
           schedule = (events, states, result)
       \<and> length tasks = m
       \<and> output_paths = map (segment_path output_dir) [0..<m]
       \<and> (\<forall>i < m. tasks ! i = \<lparr>text = texts ! i, voice = voices ! i,
                                 output_path = segment_path output_dir i\<rparr>)
       \<and> distinct (calls events)
       \<and> (\<forall>i t. (i, t) \<in> set (calls events) \<longrightarrow> i < m \<and> t =
           tasks ! i)
       \<and> (\<forall>ps. result = Some (Inr ps)
             \<longrightarrow> ps = output_paths \<and> length (calls events) = m
                 \<and> (\<forall>i < m. (i, tasks ! i) \<in> set (calls events))
                 \<and> last events = Logged INFO ''Generated %d audio segments'' [Num m])
       \<and> (\<forall>e. result = Some (Inl e)
             \<longrightarrow> (limit < 0 \<and> e = ValueError
                 ''Semaphore initial value must be >= 0'')
                 \<or> (client self = None
                     \<and> e = RuntimeError (''TTSClient is not configured, check ''
                                          @ ''TTS_BASE_URL and auth settings''))
                 \<or> (\<exists>i < m. speech i (tasks ! i) = Inl e))
       \<and> (\<forall>lv f args. Logged lv f args \<in> set events
             \<longrightarrow> (lv = INFO \<and> f = ''Generated %d audio segments'' \<and> args =
                 [Num m])
                 \<or> (\<exists>i < m.
                      (lv = INFO \<and> f = ''Generating speech: voice=%s, length=%d chars''
                         \<and> args = [Str (voices ! i), Num (length (texts ! i))])
                      \<or> (lv = INFO \<and> f = ''Saved audio to %s''
                          \<and> args = [PathArg (segment_path output_dir i)])
                      \<or> (\<exists>audio. speech i (tasks ! i) = Inr audio \<and> lv = INFO
                              \<and> f = ''Generated %d bytes of audio''
                              \<and> args = [Num (length audio)])
                      \<or> (\<exists>e. speech i (tasks ! i) = Inl e \<and> lv = ERROR
                              \<and> f = ''Speech generation failed: %s'' \<and> args = [Exc e])))
       \<and> (client self \<noteq> None \<and> 0 \<le> limit
            \<and> completes schedule (gather_init tasks (nat limit))
            \<and> (\<forall>i < m. \<exists>audio. speech i (tasks ! i) = Inr audio)
           \<longrightarrow> result = Some (Inr (map (segment_path output_dir) [0..<m])))
       \<and> (0 < limit \<longrightarrow> completes (one_by_one m) (gather_init tasks (nat limit)))
       \<and> (length texts = length voices \<longrightarrow> length output_paths = length texts)"
proof -
  from loop have T: "tasks = fst (batch_loop output_dir 0 (zip texts voices) ([], []))"
    by simp
  from loop batch_loop_paths[of output_dir "zip texts voices"]
  have P: "output_paths = map (segment_path output_dir) [0..<m]" by (simp add: size)
  from run
  have E: "events = fst (generate_speech_batch self texts voices output_dir limit speech
                           schedule)"
    and R: "result = snd (snd (generate_speech_batch self texts voices output_dir limit speech
                                 schedule))"
    by simp_all
  have n: "length tasks = m" unfolding T size by (rule batch_tasks_length)
  have tk: "\<forall>i < m. tasks ! i = \<lparr>text = texts ! i, voice = voices ! i,
                             output_path = segment_path output_dir i\<rparr>"
    unfolding T size by (intro allI impI) (rule batch_loop_zip_tasks)
  have c1: "generate_speech_batch self (take m texts) (take m voices) output_dir limit speech
           schedule = (events, states, result)"
    unfolding size batch_take by (rule run)
  have c5: "distinct (calls events)" unfolding E by (rule batch_calls_distinct)
  have c6: "\<forall>i t. (i, t) \<in> set (calls events) \<longrightarrow> i < m \<and> t = tasks
      ! i"
  proof (intro allI impI)
    fix i t
    assume "(i, t) \<in> set (calls events)"
    from batch_calls[OF this[unfolded E]]
    have "i < m" "t = \<lparr>text = texts ! i, voice = voices ! i,
                        output_path = segment_path output_dir i\<rparr>"
      by (simp_all add: size)
    with tk show "i < m \<and> t = tasks ! i" by simp
  qed
  have c7: "\<forall>ps. result = Some (Inr ps)
             \<longrightarrow> ps = output_paths \<and> length (calls events) = m
                 \<and> (\<forall>i < m. (i, tasks ! i) \<in> set (calls events))
                 \<and> last events = Logged INFO ''Generated %d audio segments'' [Num m]"
  proof (intro allI impI)
    fix ps
    assume "result = Some (Inr ps)"
    from batch_return[OF this[unfolded R]]
    show "ps = output_paths \<and> length (calls events) = m
                 \<and> (\<forall>i < m. (i, tasks ! i) \<in> set (calls events))
                 \<and> last events = Logged INFO ''Generated %d audio segments'' [Num m]"
      unfolding T E size P by simp
  qed
  have c8: "\<forall>e. result = Some (Inl e)
             \<longrightarrow> (limit < 0 \<and> e = ValueError
                 ''Semaphore initial value must be >= 0'')
                 \<or> (client self = None
                     \<and> e = RuntimeError (''TTSClient is not configured, check ''
                                          @ ''TTS_BASE_URL and auth settings''))
                 \<or> (\<exists>i < m. speech i (tasks ! i) = Inl e)"
    unfolding R T size by (intro allI impI) (rule batch_error)
  have c9: "\<forall>lv f args. Logged lv f args \<in> set events
             \<longrightarrow> (lv = INFO \<and> f = ''Generated %d audio segments'' \<and> args =
                 [Num m])
                 \<or> (\<exists>i < m.
                      (lv = INFO \<and> f = ''Generating speech: voice=%s, length=%d chars''
                         \<and> args = [Str (voices ! i), Num (length (texts ! i))])
                      \<or> (lv = INFO \<and> f = ''Saved audio to %s''
                          \<and> args = [PathArg (segment_path output_dir i)])
                      \<or> (\<exists>audio. speech i (tasks ! i) = Inr audio \<and> lv = INFO
                              \<and> f = ''Generated %d bytes of audio''
                              \<and> args = [Num (length audio)])
                      \<or> (\<exists>e. speech i (tasks ! i) = Inl e \<and> lv = ERROR
                              \<and> f = ''Speech generation failed: %s'' \<and> args = [Exc e]))"
    unfolding E T size by (intro allI impI) (rule batch_logs)
  have c10: "client self \<noteq> None \<and> 0 \<le> limit
            \<and> completes schedule (gather_init tasks (nat limit))
            \<and> (\<forall>i < m. \<exists>audio. speech i (tasks ! i) = Inr audio)
           \<longrightarrow> result = Some (Inr (map (segment_path output_dir) [0..<m]))"
    unfolding R T size
    apply (intro impI)
    apply (elim conjE)
    apply (rule batch_returns)
       apply assumption+
    done
  have c11: "0 < limit \<longrightarrow> completes (one_by_one m) (gather_init tasks (nat limit))"
    unfolding T size by (intro impI) (rule batch_one_by_one)
  have c12: "length texts = length voices \<longrightarrow> length output_paths = length texts"
    by (simp add: P size)
  show ?thesis
    apply (intro conjI)
               apply (fact c1)
              apply (fact n)
             apply (fact P)
            apply (fact tk)
           apply (fact c5)
          apply (fact c6)
         apply (fact c7)
        apply (fact c8)
       apply (fact c9)
      apply (fact c10)
     apply (fact c11)
    apply (fact c12)
    done
qed

theorem batch_truncates_to_shorter_list_witness:
  "generate_speech_batch ready_tts [''a'', ''bb''] two_voices [''out''] 2 echo_speech crossed
     = generate_speech_batch ready_tts three_texts two_voices [''out''] 2 echo_speech crossed
   \<and> snd (snd (generate_speech_batch ready_tts three_texts two_voices [''out''] 2 echo_speech
                  crossed))
       = Some (Inr [[''out'', ''segment_000.mp3''], [''out'', ''segment_001.mp3'']])
   \<and> calls (fst (generate_speech_batch ready_tts three_texts two_voices [''out''] 2
                   echo_speech crossed))
       = [(1, \<lparr>text = ''bb'', voice = ''echo'', output_path = [''out'',
           ''segment_001.mp3'']\<rparr>),
          (0, \<lparr>text = ''a'', voice = ''alloy'', output_path = [''out'',
              ''segment_000.mp3'']\<rparr>)]
   \<and> last (fst (generate_speech_batch ready_tts three_texts two_voices [''out''] 2
                  echo_speech crossed))
       = Logged INFO ''Generated %d audio segments'' [Num 2]"
proof -
  let ?T = "fst (batch_loop [''out''] 0 (zip three_texts two_voices) ([], []))"
  let ?P = "snd (batch_loop [''out''] 0 (zip three_texts two_voices) ([], []))"
  let ?B = "generate_speech_batch ready_tts three_texts two_voices [''out''] 2 echo_speech
              crossed"
  have size: "(2::nat) = min (length three_texts) (length two_voices)"
    by (simp add: three_texts_def two_voices_def)
  have loop: "batch_loop [''out''] 0 (zip three_texts two_voices) ([], []) = (?T, ?P)"
    by simp
  have run: "?B = (fst ?B, fst (snd ?B), snd (snd ?B))" by simp
  note t = batch_truncates_to_shorter_list[OF size loop run]
  have tk: "generate_speech_batch ready_tts (take 2 three_texts) (take 2 two_voices) [''out''] 2
              echo_speech crossed = (fst ?B, fst (snd ?B), snd (snd ?B))"
    using t
    apply -
    apply (elim conjE)
    apply assumption
    done
  have ret: "client ready_tts \<noteq> None \<and> 0 \<le> (2::int)
            \<and> completes crossed (gather_init ?T (nat 2))
            \<and> (\<forall>i < 2. \<exists>audio. echo_speech i (?T ! i) = Inr audio)
           \<longrightarrow> snd (snd ?B) = Some (Inr (map (segment_path [''out'']) [0..<2]))"
    using t
    apply -
    apply (elim conjE)
    apply assumption
    done
  have a: "take 2 three_texts = [''a'', ''bb'']" "take 2 two_voices = two_voices"
    by (simp_all add: three_texts_def two_voices_def)
  from tk have 1: "generate_speech_batch ready_tts [''a'', ''bb''] two_voices [''out''] 2
                     echo_speech crossed = ?B"
    by (simp only: a prod.collapse)
  have c: "completes crossed (gather_init ?T 2)" by code_simp
  have k: "client ready_tts \<noteq> None" by (simp add: ready_tts_def)
  have e: "\<forall>i < 2. \<exists>audio. echo_speech i (?T ! i) = Inr audio"
    by (simp add: echo_speech_def)
  have p: "map (segment_path [''out'']) [0..<2]
             = [[''out'', ''segment_000.mp3''], [''out'', ''segment_001.mp3'']]"
    by code_simp
  from ret c k e have r: "snd (snd ?B) = Some (Inr (map (segment_path [''out'']) [0..<2]))"
    by simp
  have 3: "calls (fst ?B)
       = [(1, \<lparr>text = ''bb'', voice = ''echo'', output_path = [''out'',
           ''segment_001.mp3'']\<rparr>),
          (0, \<lparr>text = ''a'', voice = ''alloy'', output_path = [''out'',
              ''segment_000.mp3'']\<rparr>)]"
    by code_simp
  have 4: "last (fst ?B) = Logged INFO ''Generated %d audio segments'' [Num 2]"
    by code_simp
  from 1 r[unfolded p] 3 4 show ?thesis
    apply -
    apply (intro conjI)
       apply assumption+
    done
qed

end
